theory Spec2Isabelle
  imports Main "HOL-Library.Word" "HOL-Library.Multiset" "HOL-Library.List_Lexorder"
begin

section \<open>The read path of the distributed map (dmap\_get.go)\<close>

subsection \<open>Data model\<close>

text \<open>
  Go's \<open>[]byte\<close> is a list of 8-bit words (a nil slice is the empty list), the key
  fingerprint \<open>hkey\<close> is a \<open>uint64\<close>. The \<open>int64\<close> fields \<open>Timestamp\<close> and
  \<open>TTL\<close> are only compared and copied by this file, never computed with, so they are
  integers.
\<close>

type_synonym bytes = "8 word list"
type_synonym hkey = "64 word"

text \<open>\<open>storage.VData\<close>: the four fields this file reads.\<close>

record VData =
  Key :: string
  Value :: bytes
  TTL :: int
  Timestamp :: int

text \<open>The composite literal \<open>storage.VData{}\<close>: every field at its zero value.\<close>

definition VData_zero :: VData where
  "VData_zero = \<lparr>Key = [], Value = [], TTL = 0, Timestamp = 0\<rparr>"

text \<open>
  A \<open>version\<close> holds two pointers. \<open>host\<close> is the address of a variable of type
  \<open>discovery.Member\<close>: \<open>&db.this\<close>, the variable \<open>owner\<close> declared in the body of
  the loop of \<open>lookupOnOwners\<close> (a new variable each iteration, named here by the
  index of the iteration), or the range variable \<open>replica\<close> of \<open>lookupOnReplicas\<close>.
  \<open>Data\<close> is nil or points to a \<open>VData\<close> that nothing in this file writes to after
  the version is built, so it is an optional value.
\<close>

datatype hostref = ThisRef | OwnerRef nat | ReplicaRef nat

record version =
  host :: hostref
  Data :: "VData option"

datatype error =
    ErrReadQuorum
  | ErrKeyNotFound
  | ErrOther string
  | ErrNonSettable
  | ErrMalformed
  | PanicOwnersEmpty
  | PanicNilDeref

subsection \<open>Ordering of versions\<close>

text \<open>
  \<open>bytes.Compare\<close> of the Go standard library: \<open>-1\<close>, \<open>0\<close> or \<open>1\<close> as the first
  slice is lexicographically less than, equal to or greater than the second; bytes
  compare as unsigned numbers and a proper prefix is less.
\<close>

fun bytes_Compare :: "bytes \<Rightarrow> bytes \<Rightarrow> int" where
  "bytes_Compare [] [] = 0"
| "bytes_Compare [] (y # ys) = - 1"
| "bytes_Compare (x # xs) [] = 1"
| "bytes_Compare (x # xs) (y # ys) =
     (if x < y then - 1 else if y < x then 1 else bytes_Compare xs ys)"

text \<open>
  The closure handed to \<open>sort.Slice\<close> by \<open>sortVersions\<close>. It reads \<open>Data\<close> of both
  versions, which panics on a nil pointer.
\<close>

definition sortVersions_less :: "version \<Rightarrow> version \<Rightarrow> error + bool" where
  "sortVersions_less a b =
     (case Data a of
        None \<Rightarrow> Inl PanicNilDeref
      | Some x \<Rightarrow>
         (case Data b of
            None \<Rightarrow> Inl PanicNilDeref
          | Some y \<Rightarrow>
             Inr (if Timestamp x = Timestamp y
                  then 0 \<le> bytes_Compare (Value x) (Value y)
                  else Timestamp y < Timestamp x)))"

text \<open>
  \<open>sort.Slice\<close> belongs to the Go standard library. It is modelled by the library's
  insertion sort, which is what it runs on a slice of at most 12 elements (older releases
  first swap elements six places apart, which only permutes the input):
  \<^verbatim>\<open>
  for i := a + 1; i < b; i++ {
      for j := i; j > a && less(j, j-1); j-- { swap(j, j-1) }
  }
  \<close>
  \<open>insertionSort_sink less x pre\<close> is the inner loop: \<open>pre\<close> is the part of the
  slice to the left of \<open>x\<close>, nearest neighbour first, and \<open>x\<close> moves left as long as
  \<open>less\<close> says it goes before its left neighbour.
\<close>

fun insertionSort_sink ::
  "('a \<Rightarrow> 'a \<Rightarrow> error + bool) \<Rightarrow> 'a \<Rightarrow> 'a list \<Rightarrow> error + 'a list" where
  "insertionSort_sink lessf x [] = Inr [x]"
| "insertionSort_sink lessf x (y # pre) =
     (case lessf x y of
        Inl e \<Rightarrow> Inl e
      | Inr True \<Rightarrow>
         (case insertionSort_sink lessf x pre of
            Inl e \<Rightarrow> Inl e
          | Inr pre' \<Rightarrow> Inr (y # pre'))
      | Inr False \<Rightarrow> Inr (x # y # pre))"

fun insertionSort ::
  "('a \<Rightarrow> 'a \<Rightarrow> error + bool) \<Rightarrow> 'a list \<Rightarrow> 'a list \<Rightarrow> error + 'a list" where
  "insertionSort lessf pre [] = Inr (rev pre)"
| "insertionSort lessf pre (x # rest) =
     (case insertionSort_sink lessf x pre of
        Inl e \<Rightarrow> Inl e
      | Inr pre' \<Rightarrow> insertionSort lessf pre' rest)"

definition sort_Slice ::
  "('a \<Rightarrow> 'a \<Rightarrow> error + bool) \<Rightarrow> 'a list \<Rightarrow> error + 'a list" where
  "sort_Slice lessf xs =
     (case xs of [] \<Rightarrow> Inr [] | x # rest \<Rightarrow> insertionSort lessf [x] rest)"

definition sortVersions :: "version list \<Rightarrow> error + version list" where
  "sortVersions versions = sort_Slice sortVersions_less versions"

definition sanitizeAndSortVersions :: "version list \<Rightarrow> error + version list" where
  "sanitizeAndSortVersions versions =
     (let sanitized = filter (\<lambda>ver. Data ver \<noteq> None) versions
      in if length sanitized \<le> 1 then Inr sanitized else sortVersions sanitized)"

subsection \<open>Messages, effects and collaborators\<close>

datatype OpCode = OpGet | OpGetPrev | OpGetBackup | OpPutReplica | OpPutExReplica

text \<open>
  The \<open>Extra\<close> field of a request: absent, \<open>protocol.PutExtra{Timestamp}\<close> or
  \<open>protocol.PutExExtra{Timestamp, TTL}\<close>.
\<close>

datatype Extra = NoExtra | PutExtra int | PutExExtra int int

record Message =
  msg_DMap :: string
  msg_Key :: string
  msg_Value :: bytes
  msg_Extra :: Extra

text \<open>The fields of \<open>writeop\<close> that \<open>readRepair\<close> sets; \<open>timeout\<close> is a \<open>time.Duration\<close>, an \<open>int64\<close>.\<close>

record writeop =
  wo_dmap :: string
  wo_key :: string
  wo_value :: bytes
  wo_timestamp :: int
  wo_timeout :: int

text \<open>
  What the read path does to the world outside its own variables is recorded, in order,
  as a trace: the operations on the lock of the DMap, every call of \<open>requestTo\<close> with
  its address, opcode and message, every call of \<open>localPut\<close> and of
  \<open>updateAccessLog\<close>. Log lines are not modelled.
\<close>

datatype event =
    EvRLock
  | EvRUnlock
  | EvLock
  | EvUnlock
  | EvRequest string OpCode Message
  | EvLocalPut hkey writeop
  | EvUpdateAccessLog hkey

text \<open>
  The mutable state of a \<open>dmap\<close>: its storage engine (\<open>storage.Get\<close> fails on a key
  that is not there) and its access log, the time of the last access per \<open>hkey\<close>.
\<close>

record dmap =
  storage :: "hkey \<rightharpoonup> VData"
  accessLog :: "hkey \<rightharpoonup> int"

text \<open>
  The state threaded through the read path: the DMap, the trace, and the store of the
  \<open>discovery.Member\<close> variables that versions point to. The type \<open>'m\<close> stands for
  \<open>discovery.Member\<close>, which is declared outside this file.
\<close>

record 'm world =
  dm :: dmap
  trace :: "event list"
  heap :: "hostref \<rightharpoonup> 'm"

text \<open>
  Everything the read path is given: the node (\<open>db.this\<close>), the configuration, and
  the functions of this repository and of its libraries that are declared outside this
  file, each taken as a parameter. \<open>requestTo\<close> yields the \<open>Value\<close> of the response
  or an error; \<open>msgpack_decode\<close> is the msgpack decoding of a payload into a
  \<open>VData\<close> (\<open>None\<close> for a malformed payload); \<open>serializer_Unmarshal\<close> is the
  serializer of the user boundary; \<open>time_Now\<close> is the reading of the clock that
  \<open>isKeyExpired\<close> takes. \<open>loopvar_per_iteration\<close> tells the semantics of the Go
  toolchain for the variable of a \<open>for ... range\<close> loop: one variable for the whole
  loop (the language before Go 1.22) or a new one each iteration.
\<close>

datatype govalue = GoNil | GoEmptyStruct | GoOther string

record 'm env =
  db_this :: 'm
  ReadQuorum :: int
  ReadRepair :: bool
  MinimumReplicaCount :: int
  getDMap :: "string \<Rightarrow> hkey \<Rightarrow> error option"
  getPartitionOwners :: "hkey \<Rightarrow> 'm list"
  getBackupPartitionOwners :: "hkey \<Rightarrow> 'm list"
  findPartitionOwner :: "string \<Rightarrow> string \<Rightarrow> 'm \<times> hkey"
  getHKey :: "string \<Rightarrow> string \<Rightarrow> hkey"
  hostCmp :: "'m \<Rightarrow> 'm \<Rightarrow> bool"
  Member_String :: "'m \<Rightarrow> string"
  requestTo :: "string \<Rightarrow> OpCode \<Rightarrow> Message \<Rightarrow> error + bytes"
  msgpack_decode :: "bytes \<Rightarrow> VData option"
  serializer_Unmarshal :: "bytes \<Rightarrow> error + govalue"
  isKeyIdle :: "dmap \<Rightarrow> hkey \<Rightarrow> bool"
  updateAccessLog :: "hkey \<Rightarrow> dmap \<Rightarrow> dmap"
  localPut :: "hkey \<Rightarrow> writeop \<Rightarrow> dmap \<Rightarrow> error option \<times> dmap"
  time_Now :: int
  loopvar_per_iteration :: bool

text \<open>Reading through a \<open>host\<close> pointer; a pointer to no variable panics.\<close>

definition deref :: "'m env \<Rightarrow> 'm world \<Rightarrow> hostref \<Rightarrow> 'm option" where
  "deref env w r = (case r of ThisRef \<Rightarrow> Some (db_this env) | _ \<Rightarrow> heap w r)"

definition emit :: "event \<Rightarrow> 'm world \<Rightarrow> 'm world" where
  "emit ev w = w\<lparr>trace := trace w @ [ev]\<rparr>"

text \<open>
  \<open>msgpack.Unmarshal(payload, dst)\<close> of the msgpack library. Go passes \<open>dst\<close> by
  value: when the caller hands over a \<open>VData\<close> instead of a pointer to one, the callee
  holds a copy, the caller's variable keeps its content, and the library reports the
  destination as not settable. The result is the error and the content of the caller's
  variable after the call.
\<close>

datatype dest = ByValue VData | ByPointer VData

definition msgpack_Unmarshal ::
  "(bytes \<Rightarrow> VData option) \<Rightarrow> bytes \<Rightarrow> dest \<Rightarrow> error option \<times> VData" where
  "msgpack_Unmarshal decode payload dst =
     (case dst of
        ByValue v \<Rightarrow> (Some ErrNonSettable, v)
      | ByPointer v \<Rightarrow>
         (case decode payload of
            None \<Rightarrow> (Some ErrMalformed, v)
          | Some d \<Rightarrow> (None, d)))"

text \<open>
  Modelled from the spec: \<open>isKeyExpired\<close> is declared outside this file; the spec has
  \<open>isExpired(ttl)\<close> true iff \<open>ttl \<noteq> 0 \<and> now \<ge> ttl\<close>.
\<close>

definition isKeyExpired :: "int \<Rightarrow> int \<Rightarrow> bool" where
  "isKeyExpired now ttl = (ttl \<noteq> 0 \<and> ttl \<le> now)"

subsection \<open>Owner lookup\<close>

text \<open>
  The body of the loop of \<open>lookupOnOwners\<close> at index \<open>i\<close>. \<open>owner := owners[i]\<close>
  declares a new variable, whose address the version keeps. The payload is unmarshalled
  into \<open>data\<close> itself, not into \<open>&data\<close>.
\<close>

definition lookupOnOwners_step ::
  "'m env \<Rightarrow> string \<Rightarrow> string \<Rightarrow> 'm list \<Rightarrow> nat \<Rightarrow>
   version list \<times> 'm world \<Rightarrow> version list \<times> 'm world" where
  "lookupOnOwners_step env name key owners i acc =
     (let (versions, w) = acc;
          owner = owners ! i;
          w1 = w\<lparr>heap := (heap w)(OwnerRef i \<mapsto> owner)\<rparr>;
          req = \<lparr>msg_DMap = name, msg_Key = key, msg_Value = [], msg_Extra = NoExtra\<rparr>;
          ver = \<lparr>host = OwnerRef i, Data = None\<rparr>;
          w2 = emit (EvRequest (Member_String env owner) OpGetPrev req) w1
      in case requestTo env (Member_String env owner) OpGetPrev req of
           Inl err \<Rightarrow> (versions, w2)
         | Inr resp \<Rightarrow>
            (let data = VData_zero;
                 (err, data') = msgpack_Unmarshal (msgpack_decode env) resp (ByValue data)
             in case err of
                  Some e \<Rightarrow> (versions, w2)
                | None \<Rightarrow> (versions @ [ver\<lparr>Data := Some data'\<rparr>], w2)))"

text \<open>
  \<open>for i := len(owners) - 2; i >= 0; i--\<close>: the first argument counts the iterations
  left, the next index is one less. Every index visited is below \<open>len(owners) - 1\<close>.
\<close>

fun lookupOnOwners_loop ::
  "nat \<Rightarrow> 'm env \<Rightarrow> string \<Rightarrow> string \<Rightarrow> 'm list \<Rightarrow>
   version list \<times> 'm world \<Rightarrow> version list \<times> 'm world" where
  "lookupOnOwners_loop 0 env name key owners acc = acc"
| "lookupOnOwners_loop (Suc i) env name key owners acc =
     lookupOnOwners_loop i env name key owners
       (lookupOnOwners_step env name key owners i acc)"

definition lookupOnOwners ::
  "'m env \<Rightarrow> hkey \<Rightarrow> string \<Rightarrow> string \<Rightarrow> 'm world \<Rightarrow>
   error + version list \<times> 'm world" where
  "lookupOnOwners env hkey name key w =
     (let ver = \<lparr>host = ThisRef, Data = storage (dm w) hkey\<rparr>;
          versions = [ver];
          owners = getPartitionOwners env hkey
      in if length owners = 0 then Inl PanicOwnersEmpty
         else Inr (lookupOnOwners_loop (length owners - 1) env name key owners
                     (versions, w)))"

text \<open>
  The body of the loop of \<open>lookupOnReplicas\<close> for the backup at index \<open>i\<close>. The
  version keeps the address of the range variable \<open>replica\<close>, which the loop assigns
  the backup to.
\<close>

definition lookupOnReplicas_step ::
  "'m env \<Rightarrow> string \<Rightarrow> string \<Rightarrow> nat \<Rightarrow> 'm \<Rightarrow>
   version list \<times> 'm world \<Rightarrow> version list \<times> 'm world" where
  "lookupOnReplicas_step env name key i replica acc =
     (let (versions, w) = acc;
          r = ReplicaRef (if loopvar_per_iteration env then i else 0);
          w1 = w\<lparr>heap := (heap w)(r \<mapsto> replica)\<rparr>;
          req = \<lparr>msg_DMap = name, msg_Key = key, msg_Value = [], msg_Extra = NoExtra\<rparr>;
          ver = \<lparr>host = r, Data = None\<rparr>;
          w2 = emit (EvRequest (Member_String env replica) OpGetBackup req) w1
      in case requestTo env (Member_String env replica) OpGetBackup req of
           Inl err \<Rightarrow> (versions @ [ver], w2)
         | Inr resp \<Rightarrow>
            (let val = VData_zero;
                 (err, val') = msgpack_Unmarshal (msgpack_decode env) resp (ByPointer val)
             in case err of
                  Some e \<Rightarrow> (versions @ [ver], w2)
                | None \<Rightarrow> (versions @ [ver\<lparr>Data := Some val'\<rparr>], w2)))"

fun lookupOnReplicas_loop ::
  "'m env \<Rightarrow> string \<Rightarrow> string \<Rightarrow> nat \<Rightarrow> 'm list \<Rightarrow>
   version list \<times> 'm world \<Rightarrow> version list \<times> 'm world" where
  "lookupOnReplicas_loop env name key i [] acc = acc"
| "lookupOnReplicas_loop env name key i (replica # backups) acc =
     lookupOnReplicas_loop env name key (Suc i) backups
       (lookupOnReplicas_step env name key i replica acc)"

definition lookupOnReplicas ::
  "'m env \<Rightarrow> hkey \<Rightarrow> string \<Rightarrow> string \<Rightarrow> 'm world \<Rightarrow> version list \<times> 'm world" where
  "lookupOnReplicas env hkey name key w =
     lookupOnReplicas_loop env name key 0 (getBackupPartitionOwners env hkey) ([], w)"

subsection \<open>Read repair\<close>

text \<open>
  The body of the loop of \<open>readRepair\<close> for one version. \<open>winner.Data\<close> is read
  without a nil check, in the skip test when \<open>ver.Data\<close> is not nil and in the request
  otherwise. The result of \<open>localPut\<close> and of \<open>requestTo\<close> is logged and dropped.
\<close>

definition readRepair_step ::
  "'m env \<Rightarrow> string \<Rightarrow> version \<Rightarrow> version \<Rightarrow> 'm world \<Rightarrow> error + 'm world" where
  "readRepair_step env name winner ver w =
     (case Data winner of
        None \<Rightarrow> Inl PanicNilDeref
      | Some wd \<Rightarrow>
         if (case Data ver of None \<Rightarrow> False | Some d \<Rightarrow> Timestamp wd = Timestamp d)
         then Inr w
         else
           (let req = \<lparr>msg_DMap = name, msg_Key = Key wd, msg_Value = Value wd,
                       msg_Extra = NoExtra\<rparr>;
                (op, req') =
                  (if TTL wd = 0
                   then (OpPutReplica, req\<lparr>msg_Extra := PutExtra (Timestamp wd)\<rparr>)
                   else (OpPutExReplica,
                         req\<lparr>msg_Extra := PutExExtra (Timestamp wd) (TTL wd)\<rparr>))
            in case deref env w (host ver) of
                 None \<Rightarrow> Inl PanicNilDeref
               | Some h \<Rightarrow>
                  if hostCmp env h (db_this env)
                  then
                    (let hkey = getHKey env name (Key wd);
                         wo = \<lparr>wo_dmap = name, wo_key = Key wd, wo_value = Value wd,
                               wo_timestamp = Timestamp wd, wo_timeout = TTL wd\<rparr>;
                         w1 = emit EvLock w;
                         (err, dm') = localPut env hkey wo (dm w1);
                         w2 = emit (EvLocalPut hkey wo) (w1\<lparr>dm := dm'\<rparr>)
                     in Inr (emit EvUnlock w2))
                  else Inr (emit (EvRequest (Member_String env h) op req') w)))"

fun readRepair ::
  "'m env \<Rightarrow> string \<Rightarrow> version \<Rightarrow> version list \<Rightarrow> 'm world \<Rightarrow> error + 'm world" where
  "readRepair env name winner [] w = Inr w"
| "readRepair env name winner (ver # versions) w =
     (case readRepair_step env name winner ver w of
        Inl e \<Rightarrow> Inl e
      | Inr w' \<Rightarrow> readRepair env name winner versions w')"

subsection \<open>The cluster-wide GET\<close>

text \<open>
  \<open>callGetOnCluster\<close> returns the value or the error, and the world it leaves. A
  panic is the error of the result; the read lock is not released then.
\<close>

definition callGetOnCluster ::
  "'m env \<Rightarrow> hkey \<Rightarrow> string \<Rightarrow> string \<Rightarrow> 'm world \<Rightarrow> (error + bytes) \<times> 'm world" where
  "callGetOnCluster env hkey name key w =
     (case getDMap env name hkey of
        Some err \<Rightarrow> (Inl err, w)
      | None \<Rightarrow>
         (let w1 = emit EvRLock w
          in case lookupOnOwners env hkey name key w1 of
               Inl p \<Rightarrow> (Inl p, w1)
             | Inr (versions0, w2) \<Rightarrow>
                (let (versions, w3) =
                       (if MinimumReplicaCount env \<le> ReadQuorum env
                        then (let (v, w') = lookupOnReplicas env hkey name key w2
                              in (versions0 @ v, w'))
                        else (versions0, w2))
                 in if int (length versions) < ReadQuorum env
                    then (Inl ErrReadQuorum, emit EvRUnlock w3)
                    else
                      (case sanitizeAndSortVersions versions of
                         Inl p \<Rightarrow> (Inl p, w3)
                       | Inr [] \<Rightarrow> (Inl ErrKeyNotFound, emit EvRUnlock w3)
                       | Inr (winner # others) \<Rightarrow>
                          if int (length (winner # others)) < ReadQuorum env
                          then (Inl ErrReadQuorum, emit EvRUnlock w3)
                          else
                            (case Data winner of
                               None \<Rightarrow> (Inl PanicNilDeref, w3)
                             | Some wd \<Rightarrow>
                                if isKeyExpired (time_Now env) (TTL wd)
                                   \<or> isKeyIdle env (dm w3) hkey
                                then (Inl ErrKeyNotFound, emit EvRUnlock w3)
                                else
                                  (let w4 = emit (EvUpdateAccessLog hkey)
                                              (w3\<lparr>dm := updateAccessLog env hkey (dm w3)\<rparr>);
                                       w5 = emit EvRUnlock w4
                                   in if ReadRepair env
                                      then (case readRepair env name winner versions w5 of
                                              Inl p \<Rightarrow> (Inl p, w5)
                                            | Inr w6 \<Rightarrow> (Inr (Value wd), w6))
                                      else (Inr (Value wd), w5)))))))"

definition get ::
  "'m env \<Rightarrow> string \<Rightarrow> string \<Rightarrow> 'm world \<Rightarrow> (error + bytes) \<times> 'm world" where
  "get env name key w =
     (let (member, hkey) = findPartitionOwner env name key
      in if hostCmp env member (db_this env)
         then callGetOnCluster env hkey name key w
         else
           (let req = \<lparr>msg_DMap = name, msg_Key = key, msg_Value = [], msg_Extra = NoExtra\<rparr>;
                w1 = emit (EvRequest (Member_String env member) OpGet req) w
            in case requestTo env (Member_String env member) OpGet req of
                 Inl err \<Rightarrow> (Inl err, w1)
               | Inr resp \<Rightarrow> (Inr resp, w1)))"

subsection \<open>The user boundary\<close>

text \<open>
  \<open>unmarshalValue\<close>: the serializer fills an \<open>interface{}\<close>; a value whose dynamic
  type is \<open>struct{}\<close> is turned into nil. \<open>Inr GoNil\<close> is the pair of a nil value and
  a nil error.
\<close>

definition unmarshalValue :: "'m env \<Rightarrow> bytes \<Rightarrow> error + govalue" where
  "unmarshalValue env rawval =
     (case serializer_Unmarshal env rawval of
        Inl err \<Rightarrow> Inl err
      | Inr val \<Rightarrow> (case val of GoEmptyStruct \<Rightarrow> Inr GoNil | _ \<Rightarrow> Inr val))"

text \<open>\<open>DMap.Get\<close>; \<open>name\<close> is the name of the DMap handle.\<close>

definition DMap_Get ::
  "'m env \<Rightarrow> string \<Rightarrow> string \<Rightarrow> 'm world \<Rightarrow> (error + govalue) \<times> 'm world" where
  "DMap_Get env name key w =
     (case get env name key w of
        (Inl err, w') \<Rightarrow> (Inl err, w')
      | (Inr rawval, w') \<Rightarrow> (unmarshalValue env rawval, w'))"

section \<open>Notions used by the statements and proofs\<close>

text \<open>
  The order of the spec on the data of two versions: a larger timestamp first, then the
  lexicographically larger value (the order of lists of unsigned bytes).
\<close>

definition vd_ge :: "VData \<Rightarrow> VData \<Rightarrow> bool" where
  "vd_ge x y = (Timestamp y < Timestamp x \<or> (Timestamp y = Timestamp x \<and> Value y \<le> Value x))"

text \<open>
  The same order on versions that both carry data.
\<close>

definition ver_ge :: "version \<Rightarrow> version \<Rightarrow> bool" where
  "ver_ge a b = (case Data a of None \<Rightarrow> False | Some x \<Rightarrow>
                  (case Data b of None \<Rightarrow> False | Some y \<Rightarrow> vd_ge x y))"

text \<open>
  The value of the variable \<open>versions\<close> of \<open>callGetOnCluster\<close> when it reaches the first
  quorum test, with the world at that point: the versions of \<open>lookupOnOwners\<close>, followed
  by those of \<open>lookupOnReplicas\<close> when the gate on \<open>ReadQuorum\<close> is open.
\<close>

definition collectVersions ::
  "'m env \<Rightarrow> hkey \<Rightarrow> string \<Rightarrow> string \<Rightarrow> 'm world \<Rightarrow> error + version list \<times> 'm world" where
  "collectVersions env hkey name key w1 =
     (case lookupOnOwners env hkey name key w1 of
        Inl p \<Rightarrow> Inl p
      | Inr (versions0, w2) \<Rightarrow>
          Inr (if MinimumReplicaCount env \<le> ReadQuorum env
               then (let (v, w') = lookupOnReplicas env hkey name key w2
                     in (versions0 @ v, w'))
               else (versions0, w2)))"

text \<open>
  The trace entry of the \<open>GET-PREV\<close> request to one previous owner.
\<close>

definition getPrev_request :: "'m env \<Rightarrow> string \<Rightarrow> string \<Rightarrow> 'm \<Rightarrow> event" where
  "getPrev_request env name key owner =
     EvRequest (Member_String env owner) OpGetPrev
       \<lparr>msg_DMap = name, msg_Key = key, msg_Value = [], msg_Extra = NoExtra\<rparr>"

text \<open>
  The trace entry of the \<open>GET-BACKUP\<close> request to one backup.
\<close>

definition getBackup_request :: "'m env \<Rightarrow> string \<Rightarrow> string \<Rightarrow> 'm \<Rightarrow> event" where
  "getBackup_request env name key replica =
     EvRequest (Member_String env replica) OpGetBackup
       \<lparr>msg_DMap = name, msg_Key = key, msg_Value = [], msg_Extra = NoExtra\<rparr>"

text \<open>
  What the version of one backup carries: the decoded payload, or nothing when the
  request or the decoding fails.
\<close>

definition replica_data :: "'m env \<Rightarrow> string \<Rightarrow> string \<Rightarrow> 'm \<Rightarrow> VData option" where
  "replica_data env name key replica =
     (case requestTo env (Member_String env replica) OpGetBackup
             \<lparr>msg_DMap = name, msg_Key = key, msg_Value = [], msg_Extra = NoExtra\<rparr> of
        Inl err \<Rightarrow> None
      | Inr resp \<Rightarrow> msgpack_decode env resp)"

text \<open>
  The address of the range variable \<open>replica\<close> at iteration \<open>i\<close>.
\<close>

definition replica_ref :: "'m env \<Rightarrow> nat \<Rightarrow> hostref" where
  "replica_ref env i = ReplicaRef (if loopvar_per_iteration env then i else 0)"

text \<open>
  Every \<open>host\<close> pointer of the versions points to a variable of the world.
\<close>

definition hosts_valid :: "'m env \<Rightarrow> 'm world \<Rightarrow> version list \<Rightarrow> bool" where
  "hosts_valid env w vs = list_all (\<lambda>v. deref env w (host v) \<noteq> None) vs"

text \<open>
  The pair of timestamp and value of a version that carries data.
\<close>

definition version_key :: "version \<Rightarrow> (int \<times> bytes) option" where
  "version_key v = map_option (\<lambda>d. (Timestamp d, Value d)) (Data v)"

text \<open>
  What the spec has \<open>readRepair\<close> do for one version: nothing when the version carries
  data with the timestamp of the winner; otherwise the local write under the write lock when
  the host of the version is this node, and one \<open>PUT-REPLICA\<close> (ttl zero) or
  \<open>PUT-EX-REPLICA\<close> request to the host when it is not.
\<close>

definition repair_events :: "'m env \<Rightarrow> string \<Rightarrow> VData \<Rightarrow> 'm world \<Rightarrow> version \<Rightarrow> event list" where
  "repair_events env name wd w ver =
     (if (case Data ver of None \<Rightarrow> False | Some d \<Rightarrow> Timestamp wd = Timestamp d) then []
      else
        (case deref env w (host ver) of
           None \<Rightarrow> []
         | Some h \<Rightarrow>
            if hostCmp env h (db_this env)
            then [EvLock,
                  EvLocalPut (getHKey env name (Key wd))
                    \<lparr>wo_dmap = name, wo_key = Key wd, wo_value = Value wd,
                      wo_timestamp = Timestamp wd, wo_timeout = TTL wd\<rparr>,
                  EvUnlock]
            else [EvRequest (Member_String env h)
                    (if TTL wd = 0 then OpPutReplica else OpPutExReplica)
                    \<lparr>msg_DMap = name, msg_Key = Key wd, msg_Value = Value wd,
                      msg_Extra = (if TTL wd = 0 then PutExtra (Timestamp wd)
                                   else PutExExtra (Timestamp wd) (TTL wd))\<rparr>]))"

text \<open>
  A stretch of the trace without a call of \<open>updateAccessLog\<close>.
\<close>

definition no_update :: "event list \<Rightarrow> bool" where
  "no_update evs = list_all (\<lambda>e. case e of EvUpdateAccessLog k \<Rightarrow> False | _ \<Rightarrow> True) evs"

text \<open>
  A \<open>GET-BACKUP\<close> request in the trace.
\<close>

definition is_getBackup :: "event \<Rightarrow> bool" where
  "is_getBackup e = (case e of EvRequest addr op msg \<Rightarrow> op = OpGetBackup | _ \<Rightarrow> False)"

text \<open>
  The events that \<open>callGetOnCluster\<close> can leave after the lookups: everything but
  taking the read lock and requests other than the two replica writes.
\<close>

definition after_collect :: "event \<Rightarrow> bool" where
  "after_collect e =
     (case e of
        EvRequest addr op msg \<Rightarrow> op = OpPutReplica \<or> op = OpPutExReplica
      | EvRLock \<Rightarrow> False
      | _ \<Rightarrow> True)"

text \<open>
  A run of \<open>callGetOnCluster\<close> consults the replicas when the part of the trace that it
  adds holds a \<open>GET-BACKUP\<close> request.
\<close>

definition replicas_consulted ::
  "'m env \<Rightarrow> hkey \<Rightarrow> string \<Rightarrow> string \<Rightarrow> 'm world \<Rightarrow> bool" where
  "replicas_consulted env hkey name key w =
     list_ex is_getBackup
       (drop (length (trace w)) (trace (snd (callGetOnCluster env hkey name key w))))"



section \<open>A small cluster to run the model on\<close>

text \<open>
  Node \<open>n0\<close> owns the partition of key \<open>k\<close> of the DMap \<open>dm\<close> (\<open>hkey\<close> 7);
  \<open>p9\<close> is a previous owner, \<open>n1\<close> and \<open>n2\<close> are the backups. \<open>p9\<close> answers
  \<open>GET-PREV\<close> with the payload \<open>[1]\<close>, which decodes to \<open>ex_v1\<close>; \<open>n1\<close> answers
  \<open>GET-BACKUP\<close> with \<open>[2]\<close>, which decodes to \<open>ex_v2\<close>; \<open>n2\<close> times out. The two
  values have the same timestamp and differ in their bytes. The clock reads 1000.
\<close>

definition ex_v1 :: VData where
  "ex_v1 = \<lparr>Key = ''k'', Value = [1], TTL = 0, Timestamp = 100\<rparr>"

definition ex_v2 :: VData where
  "ex_v2 = \<lparr>Key = ''k'', Value = [2], TTL = 0, Timestamp = 100\<rparr>"

definition ex_v3 :: VData where
  "ex_v3 = \<lparr>Key = ''k'', Value = [9], TTL = 5000, Timestamp = 200\<rparr>"

definition ex_expired :: VData where
  "ex_expired = \<lparr>Key = ''k'', Value = [3], TTL = 500, Timestamp = 300\<rparr>"

definition ex_blank :: VData where
  "ex_blank = \<lparr>Key = ''k'', Value = [], TTL = 0, Timestamp = 300\<rparr>"

definition ex_env :: "string env" where
  "ex_env =
     \<lparr>db_this = ''n0'', ReadQuorum = 2, ReadRepair = True, MinimumReplicaCount = 1,
      getDMap = (\<lambda>name hkey. None),
      getPartitionOwners = (\<lambda>hkey. [''p9'', ''n0'']),
      getBackupPartitionOwners = (\<lambda>hkey. [''n1'', ''n2'']),
      findPartitionOwner = (\<lambda>name key. (''n0'', 7)),
      getHKey = (\<lambda>name key. 7),
      hostCmp = (\<lambda>a b. a = b),
      Member_String = (\<lambda>m. m),
      requestTo = (\<lambda>addr op msg.
         if op = OpGetPrev then Inr [1]
         else if op = OpGetBackup \<and> addr = ''n1'' then Inr [2]
         else if op = OpGetBackup then Inl (ErrOther ''timeout'')
         else Inr []),
      msgpack_decode = (\<lambda>payload.
         if payload = [1] then Some ex_v1 else if payload = [2] then Some ex_v2 else None),
      serializer_Unmarshal = (\<lambda>raw. if raw = [] then Inr GoEmptyStruct else Inr (GoOther ''v'')),
      isKeyIdle = (\<lambda>d hkey. False),
      updateAccessLog = (\<lambda>hkey d. d\<lparr>accessLog := (accessLog d)(hkey \<mapsto> 1000)\<rparr>),
      localPut = (\<lambda>hkey wo d. (None, d)),
      time_Now = 1000,
      loopvar_per_iteration = False\<rparr>"

definition ex_env_down :: "string env" where
  "ex_env_down = ex_env\<lparr>requestTo := (\<lambda>addr op msg. Inl (ErrOther ''down''))\<rparr>"

definition ex_world :: "string world" where
  "ex_world = \<lparr>dm = \<lparr>storage = [7 \<mapsto> ex_v1], accessLog = Map.empty\<rparr>, trace = [], heap = Map.empty\<rparr>"

definition ex_world_with :: "VData option \<Rightarrow> string world" where
  "ex_world_with local =
     \<lparr>dm = \<lparr>storage = (\<lambda>hkey. if hkey = 7 then local else None), accessLog = Map.empty\<rparr>,
      trace = [], heap = Map.empty\<rparr>"

definition ex_world_repair :: "string world" where
  "ex_world_repair =
     \<lparr>dm = \<lparr>storage = [7 \<mapsto> ex_v1], accessLog = Map.empty\<rparr>, trace = [],
      heap = [OwnerRef 0 \<mapsto> ''p9'', ReplicaRef 0 \<mapsto> ''n1'']\<rparr>"

definition ex_versions :: "version list" where
  "ex_versions =
     [\<lparr>host = ThisRef, Data = Some ex_v1\<rparr>,
      \<lparr>host = ReplicaRef 0, Data = Some ex_v2\<rparr>,
      \<lparr>host = ReplicaRef 0, Data = None\<rparr>]"

definition ex_versions_absent :: "version list" where
  "ex_versions_absent =
     [\<lparr>host = ThisRef, Data = None\<rparr>,
      \<lparr>host = ReplicaRef 0, Data = None\<rparr>,
      \<lparr>host = ReplicaRef 0, Data = None\<rparr>]"

definition ex_versions_repair :: "version list" where
  "ex_versions_repair =
     [\<lparr>host = ThisRef, Data = Some ex_v1\<rparr>,
      \<lparr>host = OwnerRef 0, Data = None\<rparr>,
      \<lparr>host = ReplicaRef 0, Data = Some ex_v3\<rparr>]"


section \<open>Auxiliary lemmas\<close>

lemmas model_defs =
  callGetOnCluster_def lookupOnOwners_def lookupOnOwners_step_def lookupOnReplicas_def
  lookupOnReplicas_step_def msgpack_Unmarshal_def sanitizeAndSortVersions_def sortVersions_def
  sort_Slice_def sortVersions_less_def readRepair_step_def deref_def emit_def isKeyExpired_def
  VData_zero_def Let_def collectVersions_def get_def DMap_Get_def unmarshalValue_def

lemmas ex_defs2 =
  ex_env_def ex_world_def ex_v1_def ex_v2_def ex_v3_def ex_expired_def ex_blank_def
  ex_versions_def ex_versions_absent_def ex_env_down_def ex_world_with_def ex_world_repair_def
  ex_versions_repair_def

lemma bytes_Compare_lex:
  "bytes_Compare a b = (if a < b then - 1 else if a = b then 0 else 1)"
  by (induction a b rule: bytes_Compare.induct) auto

lemma vd_ge_trans: "vd_ge x y \<Longrightarrow> vd_ge y z \<Longrightarrow> vd_ge x z"
  by (auto simp: vd_ge_def)

lemma vd_ge_antisym: "vd_ge x y \<Longrightarrow> vd_ge y x \<Longrightarrow> Timestamp x = Timestamp y \<and> Value x = Value y"
  by (auto simp: vd_ge_def)

lemma ver_ge_trans: "ver_ge a b \<Longrightarrow> ver_ge b c \<Longrightarrow> ver_ge a c"
  by (auto simp: ver_ge_def split: option.splits intro: vd_ge_trans)

lemma less_version_data:
  "Data a \<noteq> None \<Longrightarrow> Data b \<noteq> None \<Longrightarrow> sortVersions_less a b = Inr (ver_ge a b)"
  by (auto simp: sortVersions_less_def ver_ge_def vd_ge_def bytes_Compare_lex)

lemma ver_ge_total: "Data a \<noteq> None \<Longrightarrow> Data b \<noteq> None \<Longrightarrow> ver_ge a b \<or> ver_ge b a"
  by (auto simp: ver_ge_def vd_ge_def)

lemma sink_ok:
  "\<forall>v \<in> set (x # pre). Data v \<noteq> None \<Longrightarrow> sorted_wrt (\<lambda>a b. ver_ge b a) pre \<Longrightarrow>
   \<exists>pre'. insertionSort_sink sortVersions_less x pre = Inr pre' \<and> mset pre' = mset (x # pre)
      \<and> sorted_wrt (\<lambda>a b. ver_ge b a) pre'"
proof (induction pre)
  case Nil
  then show ?case by simp
next
  case (Cons y pre)
  have dx: "Data x \<noteq> None" and dy: "Data y \<noteq> None" using Cons.prems(1) by auto
  have lt: "sortVersions_less x y = Inr (ver_ge x y)" using dx dy by (rule less_version_data)
  show ?case
  proof (cases "ver_ge x y")
    case True
    from Cons.prems have "\<forall>v \<in> set (x # pre). Data v \<noteq> None" "sorted_wrt (\<lambda>a b. ver_ge b a) pre"
      by auto
    from Cons.IH [OF this] obtain pre' where
      p: "insertionSort_sink sortVersions_less x pre = Inr pre'"
         "mset pre' = mset (x # pre)" "sorted_wrt (\<lambda>a b. ver_ge b a) pre'" by blast
    from p(2) have "set pre' = insert x (set pre)" by (metis list.simps(15) set_mset_mset)
    with Cons.prems(2) True have "\<forall>z \<in> set pre'. ver_ge z y" by auto
    with p lt True show ?thesis by simp
  next
    case False
    with dx dy have yx: "ver_ge y x" using ver_ge_total by blast
    from Cons.prems(2) have "\<forall>z \<in> set pre. ver_ge z y" by simp
    with yx have "\<forall>z \<in> set (y # pre). ver_ge z x" by (auto intro: ver_ge_trans)
    with Cons.prems(2) lt False show ?thesis by simp
  qed
qed

lemma insertionSort_ok:
  "\<forall>v \<in> set (pre @ rest). Data v \<noteq> None \<Longrightarrow> sorted_wrt (\<lambda>a b. ver_ge b a) pre \<Longrightarrow>
   \<exists>zs. insertionSort sortVersions_less pre rest = Inr zs \<and> mset zs = mset (pre @ rest)
      \<and> sorted_wrt ver_ge zs"
proof (induction rest arbitrary: pre)
  case Nil
  have "sorted_wrt ver_ge (rev pre)" using Nil.prems(2) by (simp add: sorted_wrt_rev)
  then show ?case by simp
next
  case (Cons x rest)
  from Cons.prems have "\<forall>v \<in> set (x # pre). Data v \<noteq> None" by auto
  from sink_ok [OF this Cons.prems(2)] obtain pre' where
    p: "insertionSort_sink sortVersions_less x pre = Inr pre'"
       "mset pre' = mset (x # pre)" "sorted_wrt (\<lambda>a b. ver_ge b a) pre'" by blast
  from p(2) have s: "set pre' = insert x (set pre)" by (metis list.simps(15) set_mset_mset)
  with Cons.prems(1) have "\<forall>v \<in> set (pre' @ rest). Data v \<noteq> None" by auto
  from Cons.IH [OF this p(3)] obtain zs where
    z: "insertionSort sortVersions_less pre' rest = Inr zs" "mset zs = mset (pre' @ rest)"
       "sorted_wrt ver_ge zs" by blast
  from z p show ?case by simp
qed

lemma sort_Slice_ok:
  assumes "\<forall>v \<in> set vs. Data v \<noteq> None"
  shows "\<exists>zs. sort_Slice sortVersions_less vs = Inr zs \<and> mset zs = mset vs \<and> sorted_wrt ver_ge zs"
proof (cases vs)
  case Nil
  then show ?thesis by (simp add: sort_Slice_def)
next
  case (Cons x rest)
  with assms have "\<forall>v \<in> set ([x] @ rest). Data v \<noteq> None" by simp
  from insertionSort_ok [OF this] Cons show ?thesis by (simp add: sort_Slice_def)
qed

lemma filter_all: "\<forall>v \<in> set vs. P v \<Longrightarrow> filter P vs = vs"
  by (induction vs) auto

lemma sanitize_ok:
  assumes "\<forall>v \<in> set vs. Data v \<noteq> None"
  shows "\<exists>zs. sanitizeAndSortVersions vs = Inr zs \<and> mset zs = mset vs \<and> sorted_wrt ver_ge zs"
proof -
  have f: "filter (\<lambda>ver. Data ver \<noteq> None) vs = vs" using assms by (simp add: filter_all)
  show ?thesis
  proof (cases "length vs \<le> 1")
    case True
    then have "sorted_wrt ver_ge vs" by (cases vs) auto
    with True f show ?thesis by (simp add: sanitizeAndSortVersions_def)
  next
    case False
    with f sort_Slice_ok [OF assms] show ?thesis
      by (simp add: sanitizeAndSortVersions_def sortVersions_def)
  qed
qed

lemma msgpack_Unmarshal_ByValue [simp]:
  "msgpack_Unmarshal decode payload (ByValue v) = (Some ErrNonSettable, v)"
  by (simp add: msgpack_Unmarshal_def)

lemma msgpack_Unmarshal_ByPointer:
  "msgpack_Unmarshal decode payload (ByPointer v) =
     (case decode payload of None \<Rightarrow> (Some ErrMalformed, v) | Some d \<Rightarrow> (None, d))"
  by (simp add: msgpack_Unmarshal_def)

lemma lookupOnOwners_step_eq:
  "lookupOnOwners_step env name key owners i (vs, w) =
     (vs, emit (getPrev_request env name key (owners ! i))
            (w\<lparr>heap := (heap w)(OwnerRef i \<mapsto> owners ! i)\<rparr>))"
  by (simp add: lookupOnOwners_step_def getPrev_request_def Let_def split: sum.splits)

lemma lookupOnOwners_loop_fst:
  "fst (lookupOnOwners_loop n env name key owners (vs, w)) = vs"
  by (induction n arbitrary: w) (simp_all add: lookupOnOwners_step_eq)

lemma lookupOnOwners_loop_dm:
  "dm (snd (lookupOnOwners_loop n env name key owners (vs, w))) = dm w"
  by (induction n arbitrary: w) (simp_all add: lookupOnOwners_step_eq emit_def)

lemma lookupOnOwners_loop_trace:
  "trace (snd (lookupOnOwners_loop n env name key owners (vs, w))) =
     trace w @ map (\<lambda>i. getPrev_request env name key (owners ! i)) (rev [0..<n])"
  by (induction n arbitrary: w) (simp_all add: lookupOnOwners_step_eq emit_def)

lemma lookupOnOwners_local_only:
  "getPartitionOwners env hkey \<noteq> [] \<Longrightarrow>
   \<exists>w'. lookupOnOwners env hkey name key w
          = Inr ([\<lparr>host = ThisRef, Data = storage (dm w) hkey\<rparr>], w')
       \<and> dm w' = dm w
       \<and> trace w' = trace w @ map (\<lambda>i. getPrev_request env name key (getPartitionOwners env hkey ! i))
                                  (rev [0..<length (getPartitionOwners env hkey) - 1])"
  unfolding lookupOnOwners_def Let_def
  by (simp add: prod_eq_iff lookupOnOwners_loop_fst lookupOnOwners_loop_dm lookupOnOwners_loop_trace)

lemma lookupOnReplicas_step_eq:
  "lookupOnReplicas_step env name key i replica (vs, w) =
     (vs @ [\<lparr>host = replica_ref env i, Data = replica_data env name key replica\<rparr>],
      emit (getBackup_request env name key replica)
        (w\<lparr>heap := (heap w)(replica_ref env i \<mapsto> replica)\<rparr>))"
  by (simp add: lookupOnReplicas_step_def getBackup_request_def replica_data_def replica_ref_def
        msgpack_Unmarshal_ByPointer Let_def split: sum.splits option.splits)

lemma lookupOnReplicas_loop_fst:
  "fst (lookupOnReplicas_loop env name key i backups (vs, w)) =
     vs @ map (\<lambda>(j, b). \<lparr>host = replica_ref env j, Data = replica_data env name key b\<rparr>)
            (enumerate i backups)"
  by (induction backups arbitrary: i vs w) (simp_all add: lookupOnReplicas_step_eq)

lemma lookupOnReplicas_loop_dm:
  "dm (snd (lookupOnReplicas_loop env name key i backups (vs, w))) = dm w"
  by (induction backups arbitrary: i vs w) (simp_all add: lookupOnReplicas_step_eq emit_def)

lemma lookupOnReplicas_loop_trace:
  "trace (snd (lookupOnReplicas_loop env name key i backups (vs, w))) =
     trace w @ map (getBackup_request env name key) backups"
  by (induction backups arbitrary: i vs w) (simp_all add: lookupOnReplicas_step_eq emit_def)

lemma lookupOnReplicas_loop_hosts:
  "hosts_valid env w vs \<Longrightarrow>
   hosts_valid env (snd (lookupOnReplicas_loop env name key i backups (vs, w)))
     (fst (lookupOnReplicas_loop env name key i backups (vs, w)))"
proof (induction backups arbitrary: i vs w)
  case Nil
  then show ?case by simp
next
  case (Cons b backups)
  let ?w = "emit (getBackup_request env name key b) (w\<lparr>heap := (heap w)(replica_ref env i \<mapsto> b)\<rparr>)"
  let ?vs = "vs @ [\<lparr>host = replica_ref env i, Data = replica_data env name key b\<rparr>]"
  have "hosts_valid env ?w ?vs"
    using Cons.prems
    by (auto simp: hosts_valid_def list_all_iff deref_def emit_def replica_ref_def split: hostref.splits)
  from Cons.IH [OF this] show ?case by (simp add: lookupOnReplicas_step_eq)
qed

lemma lookupOnReplicas_data:
  "map Data (fst (lookupOnReplicas env hkey name key w)) =
     map (replica_data env name key) (getBackupPartitionOwners env hkey)"
proof -
  have "map Data (map (\<lambda>(j, b). \<lparr>host = replica_ref env j, Data = replica_data env name key b\<rparr>)
            (enumerate i bs)) = map (replica_data env name key) bs" for i bs
    by (induction bs arbitrary: i) simp_all
  then show ?thesis by (simp add: lookupOnReplicas_def lookupOnReplicas_loop_fst)
qed

lemma lookupOnReplicas_length:
  "length (fst (lookupOnReplicas env hkey name key w)) = length (getBackupPartitionOwners env hkey)"
  by (simp add: lookupOnReplicas_def lookupOnReplicas_loop_fst)

lemma hosts_valid_heap:
  "heap w' = heap w \<Longrightarrow> hosts_valid env w' vs = hosts_valid env w vs"
  by (simp add: hosts_valid_def deref_def cong: hostref.case_cong)

lemma collectVersions_empty:
  "getPartitionOwners env hkey = [] \<Longrightarrow> collectVersions env hkey name key w = Inl PanicOwnersEmpty"
  by (simp add: collectVersions_def lookupOnOwners_def)

lemma collectVersions_ok:
  assumes "getPartitionOwners env hkey \<noteq> []"
  shows "\<exists>w3. collectVersions env hkey name key w =
           Inr (\<lparr>host = ThisRef, Data = storage (dm w) hkey\<rparr> #
                  (if MinimumReplicaCount env \<le> ReadQuorum env
                   then map (\<lambda>(j, b). \<lparr>host = replica_ref env j, Data = replica_data env name key b\<rparr>)
                          (enumerate 0 (getBackupPartitionOwners env hkey))
                   else []), w3)
         \<and> dm w3 = dm w
         \<and> trace w3 = trace w
             @ map (\<lambda>i. getPrev_request env name key (getPartitionOwners env hkey ! i))
                 (rev [0..<length (getPartitionOwners env hkey) - 1])
             @ (if MinimumReplicaCount env \<le> ReadQuorum env
                then map (getBackup_request env name key) (getBackupPartitionOwners env hkey)
                else [])"
proof -
  from lookupOnOwners_local_only [OF assms, of name key w] obtain w2 where
    o: "lookupOnOwners env hkey name key w = Inr ([\<lparr>host = ThisRef, Data = storage (dm w) hkey\<rparr>], w2)"
       "dm w2 = dm w"
       "trace w2 = trace w @ map (\<lambda>i. getPrev_request env name key (getPartitionOwners env hkey ! i))
                                  (rev [0..<length (getPartitionOwners env hkey) - 1])"
    by blast
  show ?thesis
  proof (cases "MinimumReplicaCount env \<le> ReadQuorum env")
    case True
    obtain v w' where r: "lookupOnReplicas env hkey name key w2 = (v, w')" by (cases "lookupOnReplicas env hkey name key w2")
    have "v = fst (lookupOnReplicas env hkey name key w2)" "w' = snd (lookupOnReplicas env hkey name key w2)"
      using r by simp_all
    then have "v = map (\<lambda>(j, b). \<lparr>host = replica_ref env j, Data = replica_data env name key b\<rparr>)
                          (enumerate 0 (getBackupPartitionOwners env hkey))"
        "dm w' = dm w2"
        "trace w' = trace w2 @ map (getBackup_request env name key) (getBackupPartitionOwners env hkey)"
      by (simp_all add: lookupOnReplicas_def lookupOnReplicas_loop_fst lookupOnReplicas_loop_dm
            lookupOnReplicas_loop_trace)
    with o r True show ?thesis by (simp add: collectVersions_def)
  next
    case False
    with o show ?thesis by (simp add: collectVersions_def)
  qed
qed

lemma collectVersions_hosts:
  assumes "collectVersions env hkey name key w = Inr (versions, w3)"
  shows "hosts_valid env w3 versions"
proof -
  have ne: "getPartitionOwners env hkey \<noteq> []"
    using assms by (auto simp: collectVersions_def lookupOnOwners_def)
  from lookupOnOwners_local_only [OF ne, of name key w] obtain w2 where
    o: "lookupOnOwners env hkey name key w = Inr ([\<lparr>host = ThisRef, Data = storage (dm w) hkey\<rparr>], w2)"
    by blast
  have hv: "hosts_valid env w2 [\<lparr>host = ThisRef, Data = storage (dm w) hkey\<rparr>]"
    by (simp add: hosts_valid_def deref_def)
  show ?thesis
  proof (cases "MinimumReplicaCount env \<le> ReadQuorum env")
    case True
    have "hosts_valid env w2 []" by (simp add: hosts_valid_def)
    from lookupOnReplicas_loop_hosts [OF this, of name key 0 "getBackupPartitionOwners env hkey"]
    have "hosts_valid env (snd (lookupOnReplicas env hkey name key w2))
            (fst (lookupOnReplicas env hkey name key w2))"
      by (simp add: lookupOnReplicas_def)
    then have "hosts_valid env (snd (lookupOnReplicas env hkey name key w2))
            (\<lparr>host = ThisRef, Data = storage (dm w) hkey\<rparr> # fst (lookupOnReplicas env hkey name key w2))"
      by (simp add: hosts_valid_def deref_def)
    then show ?thesis using assms o True
      by (auto simp: collectVersions_def split: prod.splits)
  next
    case False
    with assms o hv show ?thesis by (auto simp: collectVersions_def)
  qed
qed

lemma callGetOnCluster_getDMap_error:
  "getDMap env name hkey = Some err \<Longrightarrow> callGetOnCluster env hkey name key w = (Inl err, w)"
  by (simp add: callGetOnCluster_def)

lemma callGetOnCluster_panic:
  "getDMap env name hkey = None \<Longrightarrow> collectVersions env hkey name key (emit EvRLock w) = Inl p \<Longrightarrow>
   callGetOnCluster env hkey name key w = (Inl p, emit EvRLock w)"
  by (auto simp: callGetOnCluster_def collectVersions_def split: sum.splits)

lemma callGetOnCluster_after_collect:
  assumes "getDMap env name hkey = None"
    and "collectVersions env hkey name key (emit EvRLock w) = Inr (versions, w3)"
  shows "callGetOnCluster env hkey name key w =
     (if int (length versions) < ReadQuorum env
      then (Inl ErrReadQuorum, emit EvRUnlock w3)
      else
        (case sanitizeAndSortVersions versions of
           Inl p \<Rightarrow> (Inl p, w3)
         | Inr [] \<Rightarrow> (Inl ErrKeyNotFound, emit EvRUnlock w3)
         | Inr (winner # others) \<Rightarrow>
            if int (length (winner # others)) < ReadQuorum env
            then (Inl ErrReadQuorum, emit EvRUnlock w3)
            else
              (case Data winner of
                 None \<Rightarrow> (Inl PanicNilDeref, w3)
               | Some wd \<Rightarrow>
                  if isKeyExpired (time_Now env) (TTL wd) \<or> isKeyIdle env (dm w3) hkey
                  then (Inl ErrKeyNotFound, emit EvRUnlock w3)
                  else
                    (let w4 = emit (EvUpdateAccessLog hkey)
                                (w3\<lparr>dm := updateAccessLog env hkey (dm w3)\<rparr>);
                         w5 = emit EvRUnlock w4
                     in if ReadRepair env
                        then (case readRepair env name winner versions w5 of
                                Inl p \<Rightarrow> (Inl p, w5)
                              | Inr w6 \<Rightarrow> (Inr (Value wd), w6))
                        else (Inr (Value wd), w5)))))"
proof -
  obtain versions0 w2 where o: "lookupOnOwners env hkey name key (emit EvRLock w) = Inr (versions0, w2)"
    using assms(2) by (auto simp: collectVersions_def split: sum.splits)
  with assms(2) have c: "(if MinimumReplicaCount env \<le> ReadQuorum env
               then (let (v, w') = lookupOnReplicas env hkey name key w2
                     in (versions0 @ v, w'))
               else (versions0, w2)) = (versions, w3)"
    by (simp add: collectVersions_def)
  show ?thesis
    unfolding callGetOnCluster_def using assms(1) o c by (simp add: Let_def)
qed

lemma sanitize_sorted:
  "\<exists>zs. sanitizeAndSortVersions vs = Inr zs
       \<and> mset zs = mset (filter (\<lambda>ver. Data ver \<noteq> None) vs) \<and> sorted_wrt ver_ge zs"
proof -
  let ?f = "filter (\<lambda>ver. Data ver \<noteq> None) vs"
  have a: "\<forall>v \<in> set ?f. Data v \<noteq> None" by simp
  show ?thesis
  proof (cases "length ?f \<le> 1")
    case True
    then have "sorted_wrt ver_ge ?f" by (cases ?f) auto
    with True show ?thesis by (simp add: sanitizeAndSortVersions_def)
  next
    case False
    with sort_Slice_ok [OF a] show ?thesis
      by (simp add: sanitizeAndSortVersions_def sortVersions_def)
  qed
qed

lemma sanitize_length:
  "sanitizeAndSortVersions vs = Inr zs \<Longrightarrow> length zs = length (filter (\<lambda>ver. Data ver \<noteq> None) vs)"
  using sanitize_sorted [of vs] by (metis Inr_inject size_mset)

lemma sanitize_data:
  "sanitizeAndSortVersions vs = Inr zs \<Longrightarrow> v \<in> set zs \<Longrightarrow> v \<in> set vs \<and> Data v \<noteq> None"
proof -
  assume a: "sanitizeAndSortVersions vs = Inr zs" "v \<in> set zs"
  from sanitize_sorted [of vs] a(1) have "mset zs = mset (filter (\<lambda>ver. Data ver \<noteq> None) vs)" by auto
  then have "set zs = set (filter (\<lambda>ver. Data ver \<noteq> None) vs)" by (metis set_mset_mset)
  with a(2) show ?thesis by auto
qed

lemma readRepair_step_events:
  assumes "Data winner = Some wd" and "deref env w (host ver) \<noteq> None"
  shows "\<exists>w'. readRepair_step env name winner ver w = Inr w' \<and> heap w' = heap w
           \<and> trace w' = trace w @ repair_events env name wd w ver"
proof -
  from assms(2) obtain h where h: "deref env w (host ver) = Some h" by blast
  show ?thesis
  proof (cases "case Data ver of None \<Rightarrow> False | Some d \<Rightarrow> Timestamp wd = Timestamp d")
    case True
    then show ?thesis using assms(1) by (simp add: readRepair_step_def repair_events_def)
  next
    case False
    show ?thesis
    proof (cases "hostCmp env h (db_this env)")
      case True
      with False h assms(1) show ?thesis
        by (simp add: readRepair_step_def repair_events_def emit_def Let_def split: prod.splits)
    next
      case local: False
      with False h assms(1) show ?thesis
        by (simp add: readRepair_step_def repair_events_def emit_def Let_def)
    qed
  qed
qed

lemma repair_events_heap:
  "heap w' = heap w \<Longrightarrow> repair_events env name wd w' ver = repair_events env name wd w ver"
  by (simp add: repair_events_def deref_def cong: hostref.case_cong)

lemma readRepair_events:
  assumes "Data winner = Some wd" and "hosts_valid env w versions"
  shows "\<exists>w'. readRepair env name winner versions w = Inr w' \<and> heap w' = heap w
           \<and> trace w' = trace w @ concat (map (repair_events env name wd w) versions)"
  using assms(2)
proof (induction versions arbitrary: w)
  case Nil
  then show ?case by simp
next
  case (Cons ver versions)
  from Cons.prems have d: "deref env w (host ver) \<noteq> None" and hv: "hosts_valid env w versions"
    by (simp_all add: hosts_valid_def)
  from readRepair_step_events [OF assms(1) d, of name] obtain w1 where
    s: "readRepair_step env name winner ver w = Inr w1" "heap w1 = heap w"
       "trace w1 = trace w @ repair_events env name wd w ver" by blast
  from hv hosts_valid_heap [OF s(2), of env versions] have "hosts_valid env w1 versions" by blast
  from Cons.IH [OF this] obtain w' where
    r: "readRepair env name winner versions w1 = Inr w'" "heap w' = heap w1"
       "trace w' = trace w1 @ concat (map (repair_events env name wd w1) versions)" by blast
  have "map (repair_events env name wd w1) versions = map (repair_events env name wd w) versions"
    using repair_events_heap [OF s(2), of env name wd] by simp
  with s r show ?case by simp
qed


lemma no_update_simps [simp]:
  "no_update []"
  "no_update (e # evs) = ((case e of EvUpdateAccessLog k \<Rightarrow> False | _ \<Rightarrow> True) \<and> no_update evs)"
  "no_update (xs @ ys) = (no_update xs \<and> no_update ys)"
  by (simp_all add: no_update_def)

lemma no_update_count: "no_update evs \<Longrightarrow> count_list evs (EvUpdateAccessLog k) = 0"
  by (induction evs) (auto split: event.splits)

lemma no_update_map_prev: "no_update (map (\<lambda>i. getPrev_request env name key (f i)) is)"
  by (induction "is") (simp_all add: getPrev_request_def)

lemma no_update_map_backup: "no_update (map (getBackup_request env name key) bs)"
  by (induction bs) (simp_all add: getBackup_request_def)

lemma no_update_repair: "no_update (repair_events env name wd w ver)"
  by (simp add: repair_events_def split: option.splits)

lemma no_update_concat_repair: "no_update (concat (map (repair_events env name wd w) versions))"
  by (induction versions) (simp_all add: no_update_repair)

lemma collectVersions_frame:
  assumes "collectVersions env hkey name key w = Inr (versions, w3)"
  shows "dm w3 = dm w \<and> (\<exists>evs. trace w3 = trace w @ evs \<and> no_update evs)"
proof -
  have ne: "getPartitionOwners env hkey \<noteq> []"
    using assms collectVersions_empty [of env hkey name key w] by auto
  from collectVersions_ok [OF ne, of name key w] assms
  have d: "dm w3 = dm w"
    and t: "trace w3 = trace w
             @ map (\<lambda>i. getPrev_request env name key (getPartitionOwners env hkey ! i))
                 (rev [0..<length (getPartitionOwners env hkey) - 1])
             @ (if MinimumReplicaCount env \<le> ReadQuorum env
                then map (getBackup_request env name key) (getBackupPartitionOwners env hkey)
                else [])"
    by auto
  have "no_update (map (\<lambda>i. getPrev_request env name key (getPartitionOwners env hkey ! i))
                 (rev [0..<length (getPartitionOwners env hkey) - 1])
             @ (if MinimumReplicaCount env \<le> ReadQuorum env
                then map (getBackup_request env name key) (getBackupPartitionOwners env hkey)
                else []))"
    by (simp add: no_update_map_prev no_update_map_backup)
  with d t show ?thesis by blast
qed

lemma after_collect_repair: "list_all after_collect (repair_events env name wd w ver)"
  by (simp add: repair_events_def after_collect_def split: option.splits)

lemma after_collect_concat_repair:
  "list_all after_collect (concat (map (repair_events env name wd w) versions))"
  by (induction versions) (simp_all add: after_collect_repair)

lemma after_collect_no_getBackup: "list_all after_collect evs \<Longrightarrow> filter is_getBackup evs = []"
  by (induction evs) (auto simp: after_collect_def is_getBackup_def split: event.splits)

lemma filter_getBackup_prev:
  "filter is_getBackup (map (\<lambda>i. getPrev_request env name key (f i)) is) = []"
  by (induction "is") (simp_all add: getPrev_request_def is_getBackup_def)

lemma filter_getBackup_backup:
  "filter is_getBackup (map (getBackup_request env name key) bs) = map (getBackup_request env name key) bs"
  by (induction bs) (simp_all add: getBackup_request_def is_getBackup_def)

lemma callGetOnCluster_tail:
  assumes "getDMap env name hkey = None"
    and "collectVersions env hkey name key (emit EvRLock w) = Inr (versions, w3)"
  shows "\<exists>tail. trace (snd (callGetOnCluster env hkey name key w)) = trace w3 @ tail
              \<and> list_all after_collect tail"
proof -
  note cg = callGetOnCluster_after_collect [OF assms]
  have un: "\<exists>tail. trace (emit EvRUnlock w3) = trace w3 @ tail \<and> list_all after_collect tail"
    by (simp add: emit_def after_collect_def)
  obtain zs where zs: "sanitizeAndSortVersions versions = Inr zs"
    using sanitize_sorted [of versions] by blast
  show ?thesis
  proof (cases "int (length versions) < ReadQuorum env")
    case True
    with cg un show ?thesis by simp
  next
    case q1: False
    show ?thesis
    proof (cases zs)
      case Nil
      with cg q1 zs un show ?thesis by simp
    next
      case (Cons winner others)
      show ?thesis
      proof (cases "int (length (winner # others)) < ReadQuorum env")
        case True
        with cg q1 zs Cons un show ?thesis by simp
      next
        case q2: False
        from sanitize_data [OF zs, of winner] Cons obtain wd where wd: "Data winner = Some wd"
          by auto
        show ?thesis
        proof (cases "isKeyExpired (time_Now env) (TTL wd) \<or> isKeyIdle env (dm w3) hkey")
          case True
          with cg q1 q2 zs Cons wd un show ?thesis by simp
        next
          case live: False
          let ?w5 = "emit EvRUnlock (emit (EvUpdateAccessLog hkey)
                            (w3\<lparr>dm := updateAccessLog env hkey (dm w3)\<rparr>))"
          have t5: "trace ?w5 = trace w3 @ [EvUpdateAccessLog hkey, EvRUnlock]"
            by (simp add: emit_def)
          have hv: "hosts_valid env ?w5 versions"
            using collectVersions_hosts [OF assms(2)] hosts_valid_heap [of ?w5 w3 env versions]
            by (simp add: emit_def)
          from readRepair_events [OF wd hv, of name] obtain w6 where
            r: "readRepair env name winner versions ?w5 = Inr w6"
               "trace w6 = trace ?w5 @ concat (map (repair_events env name wd ?w5) versions)"
            by blast
          let ?rep = "concat (map (repair_events env name wd ?w5) versions)"
          have w': "snd (callGetOnCluster env hkey name key w) = (if ReadRepair env then w6 else ?w5)"
            using cg q1 q2 zs Cons wd live r(1) by (auto simp: Let_def split: if_splits)
          let ?tail = "[EvUpdateAccessLog hkey, EvRUnlock] @ (if ReadRepair env then ?rep else [])"
          have "trace (snd (callGetOnCluster env hkey name key w)) = trace w3 @ ?tail"
            using w' r(2) t5 by simp
          moreover have "list_all after_collect ?tail"
            using after_collect_concat_repair [of env name wd ?w5 versions]
            by (simp add: after_collect_def)
          ultimately show ?thesis by blast
        qed
      qed
    qed
  qed
qed

lemma callGetOnCluster_getBackups:
  assumes "getDMap env name hkey = None" and "getPartitionOwners env hkey \<noteq> []"
  shows "\<exists>evs. trace (snd (callGetOnCluster env hkey name key w)) = trace w @ evs
         \<and> filter is_getBackup evs =
             (if MinimumReplicaCount env \<le> ReadQuorum env
              then map (getBackup_request env name key) (getBackupPartitionOwners env hkey)
              else [])"
proof -
  from collectVersions_ok [OF assms(2), of name key "emit EvRLock w"] obtain versions w3 where
    cv: "collectVersions env hkey name key (emit EvRLock w) = Inr (versions, w3)"
    and t: "trace w3 = trace (emit EvRLock w)
             @ map (\<lambda>i. getPrev_request env name key (getPartitionOwners env hkey ! i))
                 (rev [0..<length (getPartitionOwners env hkey) - 1])
             @ (if MinimumReplicaCount env \<le> ReadQuorum env
                then map (getBackup_request env name key) (getBackupPartitionOwners env hkey)
                else [])"
    by blast
  from callGetOnCluster_tail [OF assms(1) cv] obtain tail where
    tl: "trace (snd (callGetOnCluster env hkey name key w)) = trace w3 @ tail"
        "list_all after_collect tail" by blast
  let ?evs = "EvRLock # map (\<lambda>i. getPrev_request env name key (getPartitionOwners env hkey ! i))
                 (rev [0..<length (getPartitionOwners env hkey) - 1])
             @ (if MinimumReplicaCount env \<le> ReadQuorum env
                then map (getBackup_request env name key) (getBackupPartitionOwners env hkey)
                else []) @ tail"
  have "trace (snd (callGetOnCluster env hkey name key w)) = trace w @ ?evs"
    using tl(1) t by (simp add: emit_def)
  moreover have "filter is_getBackup ?evs =
             (if MinimumReplicaCount env \<le> ReadQuorum env
              then map (getBackup_request env name key) (getBackupPartitionOwners env hkey)
              else [])"
    using after_collect_no_getBackup [OF tl(2)]
    by (simp add: filter_getBackup_prev filter_getBackup_backup is_getBackup_def)
  ultimately show ?thesis by blast
qed



text \<open>
  The versions of \<open>lookupOnReplicas\<close> keep the address of the range variable. Where the
  loop has one variable, every one of them reads the last backup through its \<open>host\<close>.
\<close>

lemma lookupOnReplicas_loop_heap_shared:
  assumes "\<not> loopvar_per_iteration env" and "backups \<noteq> []"
  shows "heap (snd (lookupOnReplicas_loop env name key i backups (vs, w))) (ReplicaRef 0)
           = Some (last backups)"
  using assms(2)
proof (induction backups arbitrary: i vs w)
  case Nil
  then show ?case by simp
next
  case (Cons b backups)
  show ?case
  proof (cases "backups = []")
    case True
    with assms(1) show ?thesis
      by (simp add: lookupOnReplicas_step_eq replica_ref_def emit_def)
  next
    case False
    from Cons.IH [OF False] False show ?thesis by (simp add: lookupOnReplicas_step_eq)
  qed
qed

lemma lookupOnReplicas_hosts_shared:
  assumes "\<not> loopvar_per_iteration env" and "getBackupPartitionOwners env hkey \<noteq> []"
    and "ver \<in> set (fst (lookupOnReplicas env hkey name key w))"
  shows "deref env (snd (lookupOnReplicas env hkey name key w)) (host ver)
           = Some (last (getBackupPartitionOwners env hkey))"
proof -
  from assms(3) have "host ver = ReplicaRef 0"
    using assms(1)
    by (auto simp: lookupOnReplicas_def lookupOnReplicas_loop_fst replica_ref_def)
  with lookupOnReplicas_loop_heap_shared [OF assms(1,2), of name key 0 "[]" w]
  show ?thesis by (simp add: lookupOnReplicas_def deref_def)
qed

lemma lookupOnReplicas_hosts_shared_example:
  "map (deref ex_env (snd (lookupOnReplicas ex_env 7 ''dm'' ''k'' ex_world)) \<circ> host)
     (fst (lookupOnReplicas ex_env 7 ''dm'' ''k'' ex_world)) = [Some ''n2'', Some ''n2'']
   \<and> map (deref (ex_env\<lparr>loopvar_per_iteration := True\<rparr>)
            (snd (lookupOnReplicas (ex_env\<lparr>loopvar_per_iteration := True\<rparr>) 7 ''dm'' ''k'' ex_world))
          \<circ> host)
       (fst (lookupOnReplicas (ex_env\<lparr>loopvar_per_iteration := True\<rparr>) 7 ''dm'' ''k'' ex_world))
     = [Some ''n1'', Some ''n2'']"
  by (simp add: model_defs ex_defs2)

section \<open>The claims\<close>

subsection \<open>C1\<close>

text \<open>
  Claim C1: on the version set that \<open>callGetOnCluster\<close> has collected, and for every
  \<open>ReadQuorum\<close>, the errors come in this priority. Fewer collected versions (nil data
  included) than the quorum: \<open>ErrReadQuorum\<close>. Otherwise, no version with data left:
  \<open>ErrKeyNotFound\<close>. Otherwise, fewer versions with data than the quorum:
  \<open>ErrReadQuorum\<close>. In particular a quorum of versions that all have nil data gives
  \<open>ErrKeyNotFound\<close> and not \<open>ErrReadQuorum\<close>.
\<close>

theorem reconcile_error_priority:
  assumes "getDMap env name hkey = None"
    and "collectVersions env hkey name key (emit EvRLock w) = Inr (versions, w3)"
  shows "(int (length versions) < ReadQuorum env \<longrightarrow>
            fst (callGetOnCluster env hkey name key w) = Inl ErrReadQuorum)
       \<and> (ReadQuorum env \<le> int (length versions)
            \<and> filter (\<lambda>ver. Data ver \<noteq> None) versions = [] \<longrightarrow>
            fst (callGetOnCluster env hkey name key w) = Inl ErrKeyNotFound)
       \<and> (ReadQuorum env \<le> int (length versions)
            \<and> filter (\<lambda>ver. Data ver \<noteq> None) versions \<noteq> []
            \<and> int (length (filter (\<lambda>ver. Data ver \<noteq> None) versions)) < ReadQuorum env \<longrightarrow>
            fst (callGetOnCluster env hkey name key w) = Inl ErrReadQuorum)
       \<and> (ReadQuorum env \<le> int (length versions)
            \<and> (\<forall>ver \<in> set versions. Data ver = None) \<longrightarrow>
            fst (callGetOnCluster env hkey name key w) = Inl ErrKeyNotFound
            \<and> fst (callGetOnCluster env hkey name key w) \<noteq> Inl ErrReadQuorum)"
proof -
  note cg = callGetOnCluster_after_collect [OF assms]
  obtain zs where zs: "sanitizeAndSortVersions versions = Inr zs"
    using sanitize_sorted [of versions] by blast
  have len: "length zs = length (filter (\<lambda>ver. Data ver \<noteq> None) versions)"
    using zs by (rule sanitize_length)
  have c1: "int (length versions) < ReadQuorum env \<Longrightarrow>
            fst (callGetOnCluster env hkey name key w) = Inl ErrReadQuorum"
    by (simp add: cg)
  have c2: "fst (callGetOnCluster env hkey name key w) = Inl ErrKeyNotFound"
    if "ReadQuorum env \<le> int (length versions)" "filter (\<lambda>ver. Data ver \<noteq> None) versions = []"
  proof -
    from that(2) len have "zs = []" by simp
    with zs that(1) show ?thesis by (simp add: cg)
  qed
  have c3: "fst (callGetOnCluster env hkey name key w) = Inl ErrReadQuorum"
    if "ReadQuorum env \<le> int (length versions)" "filter (\<lambda>ver. Data ver \<noteq> None) versions \<noteq> []"
       "int (length (filter (\<lambda>ver. Data ver \<noteq> None) versions)) < ReadQuorum env"
  proof -
    from that(2) len obtain winner others where "zs = winner # others" by (cases zs) auto
    with zs that(1,3) len show ?thesis by (simp add: cg)
  qed
  have c4: "fst (callGetOnCluster env hkey name key w) = Inl ErrKeyNotFound
            \<and> fst (callGetOnCluster env hkey name key w) \<noteq> Inl ErrReadQuorum"
    if "ReadQuorum env \<le> int (length versions)" "\<forall>ver \<in> set versions. Data ver = None"
  proof -
    from that(2) have "filter (\<lambda>ver. Data ver \<noteq> None) versions = []" by (simp add: filter_empty_conv)
    from c2 [OF that(1) this] show ?thesis by simp
  qed
  from c1 c2 c3 c4 show ?thesis by blast
qed

text \<open>
  The three errors on the small cluster: a quorum of 4 against 3 collected versions; a
  quorum of 3 with the key absent everywhere; a quorum of 3 with data on two of three hosts.
\<close>

theorem reconcile_error_priority_witness:
  "(\<exists>w3. collectVersions (ex_env\<lparr>ReadQuorum := 4\<rparr>) 7 ''dm'' ''k'' (emit EvRLock ex_world)
            = Inr (ex_versions, w3))
   \<and> int (length ex_versions) < ReadQuorum (ex_env\<lparr>ReadQuorum := 4\<rparr>)
   \<and> fst (callGetOnCluster (ex_env\<lparr>ReadQuorum := 4\<rparr>) 7 ''dm'' ''k'' ex_world) = Inl ErrReadQuorum
   \<and> (\<exists>w3. collectVersions (ex_env_down\<lparr>ReadQuorum := 3\<rparr>) 7 ''dm'' ''k''
              (emit EvRLock (ex_world_with None)) = Inr (ex_versions_absent, w3))
   \<and> filter (\<lambda>ver. Data ver \<noteq> None) ex_versions_absent = []
   \<and> fst (callGetOnCluster (ex_env_down\<lparr>ReadQuorum := 3\<rparr>) 7 ''dm'' ''k'' (ex_world_with None))
       = Inl ErrKeyNotFound
   \<and> (\<exists>w3. collectVersions (ex_env\<lparr>ReadQuorum := 3\<rparr>) 7 ''dm'' ''k'' (emit EvRLock ex_world)
            = Inr (ex_versions, w3))
   \<and> length (filter (\<lambda>ver. Data ver \<noteq> None) ex_versions) = 2
   \<and> fst (callGetOnCluster (ex_env\<lparr>ReadQuorum := 3\<rparr>) 7 ''dm'' ''k'' ex_world) = Inl ErrReadQuorum"
proof -
  let ?A = "ex_env\<lparr>ReadQuorum := 4\<rparr>" and ?B = "ex_env_down\<lparr>ReadQuorum := 3\<rparr>"
    and ?C = "ex_env\<lparr>ReadQuorum := 3\<rparr>"
  have gA: "getDMap ?A ''dm'' 7 = None" and gB: "getDMap ?B ''dm'' 7 = None"
    and gC: "getDMap ?C ''dm'' 7 = None"
    by (simp_all add: ex_defs2)
  have eA: "\<exists>w3. collectVersions ?A 7 ''dm'' ''k'' (emit EvRLock ex_world) = Inr (ex_versions, w3)"
    by (simp add: model_defs ex_defs2)
  have eB: "\<exists>w3. collectVersions ?B 7 ''dm'' ''k'' (emit EvRLock (ex_world_with None))
              = Inr (ex_versions_absent, w3)"
    by (simp add: model_defs ex_defs2)
  have eC: "\<exists>w3. collectVersions ?C 7 ''dm'' ''k'' (emit EvRLock ex_world) = Inr (ex_versions, w3)"
    by (simp add: model_defs ex_defs2)
  have lA: "int (length ex_versions) < ReadQuorum ?A" by (simp add: ex_defs2)
  have fB: "filter (\<lambda>ver. Data ver \<noteq> None) ex_versions_absent = []" by (simp add: ex_defs2)
  have fC: "length (filter (\<lambda>ver. Data ver \<noteq> None) ex_versions) = 2" by (simp add: ex_defs2)
  from eA obtain wA where "collectVersions ?A 7 ''dm'' ''k'' (emit EvRLock ex_world) = Inr (ex_versions, wA)"
    by blast
  from reconcile_error_priority [OF gA this] lA
  have rA: "fst (callGetOnCluster ?A 7 ''dm'' ''k'' ex_world) = Inl ErrReadQuorum" by blast
  from eB obtain wB where "collectVersions ?B 7 ''dm'' ''k'' (emit EvRLock (ex_world_with None))
              = Inr (ex_versions_absent, wB)" by blast
  from reconcile_error_priority [OF gB this] fB
  have rB: "fst (callGetOnCluster ?B 7 ''dm'' ''k'' (ex_world_with None)) = Inl ErrKeyNotFound"
    by (simp add: ex_defs2)
  from eC obtain wC where "collectVersions ?C 7 ''dm'' ''k'' (emit EvRLock ex_world) = Inr (ex_versions, wC)"
    by blast
  from reconcile_error_priority [OF gC this] fC
  have rC: "fst (callGetOnCluster ?C 7 ''dm'' ''k'' ex_world) = Inl ErrReadQuorum"
    by (simp add: ex_defs2)
  from eA lA rA eB fB rB eC fC rC show ?thesis by blast
qed

subsection \<open>C2\<close>

text \<open>
  Claim C2: for a non-empty list of versions that all carry data, sorting succeeds and its
  first element, the winner, is one of the versions. No version has a larger timestamp than
  the winner, and no version with the winner's timestamp has a lexicographically larger value.
  The pair of timestamp and value of the winner depends on the multiset of these pairs alone:
  every list of versions with the same multiset has a winner with the same pair.
\<close>

theorem winner_maximises_timestamp_then_value:
  assumes "versions \<noteq> []" and "\<forall>ver \<in> set versions. Data ver \<noteq> None"
  shows "\<exists>winner others wd.
           sanitizeAndSortVersions versions = Inr (winner # others)
         \<and> winner \<in> set versions \<and> Data winner = Some wd
         \<and> (\<forall>ver \<in> set versions. \<forall>d. Data ver = Some d \<longrightarrow>
              Timestamp d < Timestamp wd \<or> (Timestamp d = Timestamp wd \<and> Value d \<le> Value wd))
         \<and> (\<forall>versions' winner' others' wd'.
              (\<forall>ver \<in> set versions'. Data ver \<noteq> None)
              \<and> mset (map version_key versions') = mset (map version_key versions)
              \<and> sanitizeAndSortVersions versions' = Inr (winner' # others')
              \<and> Data winner' = Some wd' \<longrightarrow>
              Timestamp wd' = Timestamp wd \<and> Value wd' = Value wd)"
proof -
  have top: "\<exists>winner others wd. sanitizeAndSortVersions vs = Inr (winner # others)
         \<and> winner \<in> set vs \<and> Data winner = Some wd
         \<and> (\<forall>ver \<in> set vs. \<forall>d. Data ver = Some d \<longrightarrow> vd_ge wd d)"
    if ne: "vs \<noteq> []" and dat: "\<forall>ver \<in> set vs. Data ver \<noteq> None" for vs
  proof -
    from sanitize_ok [OF dat] obtain zs where
      zs: "sanitizeAndSortVersions vs = Inr zs" "mset zs = mset vs" "sorted_wrt ver_ge zs" by blast
    from zs(2) have s: "set zs = set vs" by (metis set_mset_mset)
    with ne obtain winner others where c: "zs = winner # others" by (cases zs) auto
    with s have win: "winner \<in> set vs" by auto
    with dat obtain wd where wd: "Data winner = Some wd" by auto
    have "vd_ge wd d" if "ver \<in> set vs" "Data ver = Some d" for ver d
    proof (cases "ver = winner")
      case True
      with that wd show ?thesis by (simp add: vd_ge_def)
    next
      case False
      with that(1) s c have "ver \<in> set others" by auto
      with zs(3) c have "ver_ge winner ver" by simp
      with wd that(2) show ?thesis by (simp add: ver_ge_def)
    qed
    with zs(1) c win wd show ?thesis by blast
  qed
  from top [OF assms] obtain winner others wd where
    w: "sanitizeAndSortVersions versions = Inr (winner # others)" "winner \<in> set versions"
       "Data winner = Some wd" "\<forall>ver \<in> set versions. \<forall>d. Data ver = Some d \<longrightarrow> vd_ge wd d"
    by blast
  have det: "Timestamp wd' = Timestamp wd \<and> Value wd' = Value wd"
    if dat': "\<forall>ver \<in> set versions'. Data ver \<noteq> None"
      and ms: "mset (map version_key versions') = mset (map version_key versions)"
      and s': "sanitizeAndSortVersions versions' = Inr (winner' # others')"
      and wd': "Data winner' = Some wd'"
    for versions' winner' others' wd'
  proof -
    from ms have ks: "version_key ` set versions' = version_key ` set versions"
      by (metis set_map set_mset_mset)
    from ms assms(1) have ne': "versions' \<noteq> []" by auto
    from top [OF ne' dat'] s' wd' have
      w': "winner' \<in> set versions'" "\<forall>ver \<in> set versions'. \<forall>d. Data ver = Some d \<longrightarrow> vd_ge wd' d"
      by auto
    from w(2) ks obtain u where u: "u \<in> set versions'" "version_key u = version_key winner" by force
    with w(3) obtain du where du: "Data u = Some du" "Timestamp du = Timestamp wd" "Value du = Value wd"
      by (auto simp: version_key_def)
    from w'(2) u(1) du(1) have "vd_ge wd' du" by blast
    with du have a: "vd_ge wd' wd" by (simp add: vd_ge_def)
    from w'(1) ks obtain u' where u': "u' \<in> set versions" "version_key u' = version_key winner'" by force
    with wd' obtain du' where du': "Data u' = Some du'" "Timestamp du' = Timestamp wd'" "Value du' = Value wd'"
      by (auto simp: version_key_def)
    from w(4) u'(1) du'(1) have "vd_ge wd du'" by blast
    with du' have b: "vd_ge wd wd'" by (simp add: vd_ge_def)
    from vd_ge_antisym [OF a b] show ?thesis .
  qed
  from w(4) have mx: "\<forall>ver \<in> set versions. \<forall>d. Data ver = Some d \<longrightarrow>
              Timestamp d < Timestamp wd \<or> (Timestamp d = Timestamp wd \<and> Value d \<le> Value wd)"
    by (simp add: vd_ge_def)
  from w(1,2,3) mx det show ?thesis by blast
qed

text \<open>
  Two versions with timestamp 100 and the values \<open>[1]\<close> and \<open>[2]\<close>: the second wins.
\<close>

theorem winner_maximises_timestamp_then_value_witness:
  "list_all (\<lambda>ver. Data ver \<noteq> None)
     [\<lparr>host = ThisRef, Data = Some ex_v1\<rparr>, \<lparr>host = ReplicaRef 0, Data = Some ex_v2\<rparr>]
   \<and> sanitizeAndSortVersions
       [\<lparr>host = ThisRef, Data = Some ex_v1\<rparr>, \<lparr>host = ReplicaRef 0, Data = Some ex_v2\<rparr>]
       = Inr [\<lparr>host = ReplicaRef 0, Data = Some ex_v2\<rparr>, \<lparr>host = ThisRef, Data = Some ex_v1\<rparr>]
   \<and> (\<exists>winner others wd.
         sanitizeAndSortVersions
           [\<lparr>host = ThisRef, Data = Some ex_v1\<rparr>, \<lparr>host = ReplicaRef 0, Data = Some ex_v2\<rparr>]
           = Inr (winner # others)
       \<and> Data winner = Some wd \<and> Timestamp wd = 100 \<and> Value wd = [2]
       \<and> Timestamp ex_v1 = Timestamp wd \<and> Value ex_v1 \<le> Value wd)"
proof -
  let ?vs = "[\<lparr>host = ThisRef, Data = Some ex_v1\<rparr>, \<lparr>host = ReplicaRef 0, Data = Some ex_v2\<rparr>]"
  have ne: "?vs \<noteq> []" by simp
  have dat: "\<forall>ver \<in> set ?vs. Data ver \<noteq> None" by simp
  have ev: "sanitizeAndSortVersions ?vs
       = Inr [\<lparr>host = ReplicaRef 0, Data = Some ex_v2\<rparr>, \<lparr>host = ThisRef, Data = Some ex_v1\<rparr>]"
    by (simp add: model_defs ex_defs2)
  from winner_maximises_timestamp_then_value [OF ne dat] obtain winner others wd where
    w: "sanitizeAndSortVersions ?vs = Inr (winner # others)" "Data winner = Some wd"
       "\<forall>ver \<in> set ?vs. \<forall>d. Data ver = Some d \<longrightarrow>
              Timestamp d < Timestamp wd \<or> (Timestamp d = Timestamp wd \<and> Value d \<le> Value wd)"
    by blast
  from w(1) ev have "winner = \<lparr>host = ReplicaRef 0, Data = Some ex_v2\<rparr>" by simp
  with w(2) have wd: "wd = ex_v2" by simp
  from w(3) have "Timestamp ex_v1 < Timestamp wd \<or> (Timestamp ex_v1 = Timestamp wd \<and> Value ex_v1 \<le> Value wd)"
    by simp
  with wd have "Timestamp ex_v1 = Timestamp wd \<and> Value ex_v1 \<le> Value wd"
    by (simp add: ex_defs2)
  with w(1,2) wd ev show ?thesis by (simp add: ex_defs2)
qed

subsection \<open>C3\<close>

text \<open>
  Claim C3, which the code does not meet: a previous owner whose \<open>GET-PREV\<close> request
  succeeds with a well-formed payload should contribute a version carrying the decoded payload.
  The code unmarshals the payload into the \<open>VData\<close> itself instead of a pointer to it,
  the library reports an error for such a destination, and the version is dropped. So,
  whatever the previous owners answer, \<open>lookupOnOwners\<close> returns the version of the local
  node and nothing else.
\<close>

theorem lookupOnOwners_omits_previous_owners:
  assumes "getPartitionOwners env hkey \<noteq> []"
  shows "\<exists>w'. lookupOnOwners env hkey name key w
               = Inr ([\<lparr>host = ThisRef, Data = storage (dm w) hkey\<rparr>], w')"
  using lookupOnOwners_local_only [OF assms, of name key w] by blast

text \<open>
  On the small cluster the previous owner \<open>p9\<close> answers with a payload that decodes, and
  its version is missing from the result.
\<close>

theorem lookupOnOwners_omits_previous_owners_witness:
  "getPartitionOwners ex_env 7 = [''p9'', ''n0'']
   \<and> requestTo ex_env (Member_String ex_env ''p9'') OpGetPrev
        \<lparr>msg_DMap = ''dm'', msg_Key = ''k'', msg_Value = [], msg_Extra = NoExtra\<rparr> = Inr [1]
   \<and> msgpack_decode ex_env [1] = Some ex_v1
   \<and> (\<exists>w'. lookupOnOwners ex_env 7 ''dm'' ''k'' ex_world
              = Inr ([\<lparr>host = ThisRef, Data = Some ex_v1\<rparr>], w'))"
proof -
  have ne: "getPartitionOwners ex_env 7 \<noteq> []" by (simp add: ex_defs2)
  from lookupOnOwners_omits_previous_owners [OF ne, of "''dm''" "''k''" ex_world]
  have "\<exists>w'. lookupOnOwners ex_env 7 ''dm'' ''k'' ex_world
              = Inr ([\<lparr>host = ThisRef, Data = Some ex_v1\<rparr>], w')"
    by (simp add: ex_defs2)
  then show ?thesis by (simp add: ex_defs2)
qed

subsection \<open>C4\<close>

text \<open>
  Claim C4: \<open>lookupOnReplicas\<close> returns one version per backup, in the order of the
  backup list. The data of each is the decoded payload of the \<open>GET-BACKUP\<close> response,
  and nil when the request fails or the payload does not decode; no backup is left out.
\<close>

theorem lookupOnReplicas_one_version_per_backup:
  "length (fst (lookupOnReplicas env hkey name key w)) = length (getBackupPartitionOwners env hkey)
   \<and> map Data (fst (lookupOnReplicas env hkey name key w)) =
       map (\<lambda>replica.
              case requestTo env (Member_String env replica) OpGetBackup
                     \<lparr>msg_DMap = name, msg_Key = key, msg_Value = [], msg_Extra = NoExtra\<rparr> of
                Inl err \<Rightarrow> None
              | Inr resp \<Rightarrow> msgpack_decode env resp)
           (getBackupPartitionOwners env hkey)"
  using lookupOnReplicas_data [of env hkey name key w] lookupOnReplicas_length [of env hkey name key w]
  by (simp add: replica_data_def [abs_def])

subsection \<open>C5\<close>

text \<open>
  Claim C5: \<open>readRepair\<close> with a winner that carries data, over versions whose hosts can
  be read, returns normally, and its trace is made of one stretch of events per version, in
  order. The stretch of a version is empty exactly when the version carries data with the
  timestamp of the winner. A stretch that is not empty is, when the host of the version is
  this node, the local write of the winner's key, value, timestamp and ttl between taking
  and releasing the write lock; and otherwise one request to that host, \<open>PUT-REPLICA\<close>
  with the winner's timestamp when the winner's ttl is 0, \<open>PUT-EX-REPLICA\<close> with the
  winner's timestamp and ttl when it is not, carrying the winner's key and value.
\<close>

theorem readRepair_writes_winner_to_stale_versions:
  assumes "Data winner = Some wd"
    and "\<forall>ver \<in> set versions. deref env w (host ver) \<noteq> None"
  shows "\<exists>w' evs.
           readRepair env name winner versions w = Inr w'
         \<and> trace w' = trace w @ concat evs
         \<and> length evs = length versions
         \<and> (\<forall>i < length versions. \<forall>h. deref env w (host (versions ! i)) = Some h \<longrightarrow>
              ((evs ! i = []) = (\<exists>d. Data (versions ! i) = Some d \<and> Timestamp d = Timestamp wd))
            \<and> (evs ! i \<noteq> [] \<longrightarrow>
                 evs ! i =
                   (if hostCmp env h (db_this env)
                    then [EvLock,
                          EvLocalPut (getHKey env name (Key wd))
                            \<lparr>wo_dmap = name, wo_key = Key wd, wo_value = Value wd,
                              wo_timestamp = Timestamp wd, wo_timeout = TTL wd\<rparr>,
                          EvUnlock]
                    else [EvRequest (Member_String env h)
                            (if TTL wd = 0 then OpPutReplica else OpPutExReplica)
                            \<lparr>msg_DMap = name, msg_Key = Key wd, msg_Value = Value wd,
                              msg_Extra = (if TTL wd = 0 then PutExtra (Timestamp wd)
                                           else PutExExtra (Timestamp wd) (TTL wd))\<rparr>])))"
proof -
  have hv: "hosts_valid env w versions" using assms(2) by (simp add: hosts_valid_def list_all_iff)
  from readRepair_events [OF assms(1) hv, of name] obtain w' where
    r: "readRepair env name winner versions w = Inr w'"
       "trace w' = trace w @ concat (map (repair_events env name wd w) versions)" by blast
  let ?evs = "map (repair_events env name wd w) versions"
  have "(?evs ! i = []) = (\<exists>d. Data (versions ! i) = Some d \<and> Timestamp d = Timestamp wd)"
    if "i < length versions" "deref env w (host (versions ! i)) = Some h" for i h
    using that by (auto simp: repair_events_def split: option.splits)
  moreover have "?evs ! i =
                   (if hostCmp env h (db_this env)
                    then [EvLock,
                          EvLocalPut (getHKey env name (Key wd))
                            \<lparr>wo_dmap = name, wo_key = Key wd, wo_value = Value wd,
                              wo_timestamp = Timestamp wd, wo_timeout = TTL wd\<rparr>,
                          EvUnlock]
                    else [EvRequest (Member_String env h)
                            (if TTL wd = 0 then OpPutReplica else OpPutExReplica)
                            \<lparr>msg_DMap = name, msg_Key = Key wd, msg_Value = Value wd,
                              msg_Extra = (if TTL wd = 0 then PutExtra (Timestamp wd)
                                           else PutExExtra (Timestamp wd) (TTL wd))\<rparr>])"
    if "i < length versions" "deref env w (host (versions ! i)) = Some h" "?evs ! i \<noteq> []" for i h
    using that by (auto simp: repair_events_def split: option.splits if_splits)
  ultimately show ?thesis using r by (intro exI [of _ w'] exI [of _ ?evs]) simp
qed

text \<open>
  A winner with timestamp 200 and ttl 5000 against a stale local version, a previous owner
  without data and a replica that is current.
\<close>

theorem readRepair_writes_winner_to_stale_versions_witness:
  "list_all (\<lambda>ver. deref ex_env ex_world_repair (host ver) \<noteq> None) ex_versions_repair
   \<and> (\<exists>w'. readRepair ex_env ''dm'' \<lparr>host = ReplicaRef 0, Data = Some ex_v3\<rparr>
              ex_versions_repair ex_world_repair = Inr w'
         \<and> trace w' =
             [EvLock,
              EvLocalPut 7 \<lparr>wo_dmap = ''dm'', wo_key = ''k'', wo_value = [9],
                            wo_timestamp = 200, wo_timeout = 5000\<rparr>,
              EvUnlock,
              EvRequest ''p9'' OpPutExReplica
                \<lparr>msg_DMap = ''dm'', msg_Key = ''k'', msg_Value = [9],
                  msg_Extra = PutExExtra 200 5000\<rparr>])
   \<and> (\<exists>w' evs. readRepair ex_env ''dm'' \<lparr>host = ReplicaRef 0, Data = Some ex_v3\<rparr>
              ex_versions_repair ex_world_repair = Inr w'
         \<and> trace w' = trace ex_world_repair @ concat evs
         \<and> length evs = 3
         \<and> evs ! 0 = [EvLock,
              EvLocalPut 7 \<lparr>wo_dmap = ''dm'', wo_key = ''k'', wo_value = [9],
                            wo_timestamp = 200, wo_timeout = 5000\<rparr>,
              EvUnlock]
         \<and> evs ! 1 = [EvRequest ''p9'' OpPutExReplica
                \<lparr>msg_DMap = ''dm'', msg_Key = ''k'', msg_Value = [9],
                  msg_Extra = PutExExtra 200 5000\<rparr>]
         \<and> evs ! 2 = [])"
proof -
  let ?winner = "\<lparr>host = ReplicaRef 0, Data = Some ex_v3\<rparr>"
  have wd: "Data ?winner = Some ex_v3" by simp
  have hv: "\<forall>ver \<in> set ex_versions_repair. deref ex_env ex_world_repair (host ver) \<noteq> None"
    by (simp add: ex_defs2 deref_def)
  have run: "\<exists>w'. readRepair ex_env ''dm'' ?winner ex_versions_repair ex_world_repair = Inr w'
         \<and> trace w' =
             [EvLock,
              EvLocalPut 7 \<lparr>wo_dmap = ''dm'', wo_key = ''k'', wo_value = [9],
                            wo_timestamp = 200, wo_timeout = 5000\<rparr>,
              EvUnlock,
              EvRequest ''p9'' OpPutExReplica
                \<lparr>msg_DMap = ''dm'', msg_Key = ''k'', msg_Value = [9],
                  msg_Extra = PutExExtra 200 5000\<rparr>]"
    by (simp add: model_defs ex_defs2)
  from readRepair_writes_winner_to_stale_versions [OF wd hv, of "''dm''"] obtain w' evs where
    r: "readRepair ex_env ''dm'' ?winner ex_versions_repair ex_world_repair = Inr w'"
       "trace w' = trace ex_world_repair @ concat evs"
       "length evs = length ex_versions_repair"
    and each: "\<forall>i < length ex_versions_repair. \<forall>h.
          deref ex_env ex_world_repair (host (ex_versions_repair ! i)) = Some h \<longrightarrow>
              ((evs ! i = []) = (\<exists>d. Data (ex_versions_repair ! i) = Some d \<and> Timestamp d = Timestamp ex_v3))
            \<and> (evs ! i \<noteq> [] \<longrightarrow>
                 evs ! i =
                   (if hostCmp ex_env h (db_this ex_env)
                    then [EvLock,
                          EvLocalPut (getHKey ex_env ''dm'' (Key ex_v3))
                            \<lparr>wo_dmap = ''dm'', wo_key = Key ex_v3, wo_value = Value ex_v3,
                              wo_timestamp = Timestamp ex_v3, wo_timeout = TTL ex_v3\<rparr>,
                          EvUnlock]
                    else [EvRequest (Member_String ex_env h)
                            (if TTL ex_v3 = 0 then OpPutReplica else OpPutExReplica)
                            \<lparr>msg_DMap = ''dm'', msg_Key = Key ex_v3, msg_Value = Value ex_v3,
                              msg_Extra = (if TTL ex_v3 = 0 then PutExtra (Timestamp ex_v3)
                                           else PutExExtra (Timestamp ex_v3) (TTL ex_v3))\<rparr>]))"
    by blast
  have d0: "deref ex_env ex_world_repair (host (ex_versions_repair ! 0)) = Some ''n0''"
    and d1: "deref ex_env ex_world_repair (host (ex_versions_repair ! 1)) = Some ''p9''"
    and d2: "deref ex_env ex_world_repair (host (ex_versions_repair ! 2)) = Some ''n1''"
    by (simp_all add: ex_defs2 deref_def)
  have e0: "evs ! 0 = [EvLock,
              EvLocalPut 7 \<lparr>wo_dmap = ''dm'', wo_key = ''k'', wo_value = [9],
                            wo_timestamp = 200, wo_timeout = 5000\<rparr>,
              EvUnlock]"
    using each [rule_format, of 0, OF _ d0] by (simp add: ex_defs2)
  have e1: "evs ! 1 = [EvRequest ''p9'' OpPutExReplica
                \<lparr>msg_DMap = ''dm'', msg_Key = ''k'', msg_Value = [9],
                  msg_Extra = PutExExtra 200 5000\<rparr>]"
    using each [rule_format, of 1, OF _ d1] by (simp add: ex_defs2)
  have e2: "evs ! 2 = []"
    using each [rule_format, of 2, OF _ d2] by (simp add: ex_defs2)
  have l: "length evs = 3" using r(3) by (simp add: ex_defs2)
  have hv': "list_all (\<lambda>ver. deref ex_env ex_world_repair (host ver) \<noteq> None) ex_versions_repair"
    using hv by (simp add: list_all_iff)
  from r(1,2) l e0 e1 e2 have "\<exists>w' evs. readRepair ex_env ''dm'' ?winner
              ex_versions_repair ex_world_repair = Inr w'
         \<and> trace w' = trace ex_world_repair @ concat evs
         \<and> length evs = 3
         \<and> evs ! 0 = [EvLock,
              EvLocalPut 7 \<lparr>wo_dmap = ''dm'', wo_key = ''k'', wo_value = [9],
                            wo_timestamp = 200, wo_timeout = 5000\<rparr>,
              EvUnlock]
         \<and> evs ! 1 = [EvRequest ''p9'' OpPutExReplica
                \<lparr>msg_DMap = ''dm'', msg_Key = ''k'', msg_Value = [9],
                  msg_Extra = PutExExtra 200 5000\<rparr>]
         \<and> evs ! 2 = []" by blast
  with hv' run show ?thesis by blast
qed

subsection \<open>C6\<close>

text \<open>
  Claim C6: when the reconciliation has a winner whose ttl is not zero and has been reached
  by the clock, or when the key is idle, \<open>callGetOnCluster\<close> returns \<open>ErrKeyNotFound\<close>
  and releases the read lock, which is what it returns for a key that no host has.
\<close>

theorem expired_or_idle_winner_is_not_found:
  assumes "getDMap env name hkey = None"
    and "collectVersions env hkey name key (emit EvRLock w) = Inr (versions, w3)"
    and "ReadQuorum env \<le> int (length versions)"
    and "sanitizeAndSortVersions versions = Inr (winner # others)"
    and "ReadQuorum env \<le> int (length (winner # others))"
    and "Data winner = Some wd"
    and "(TTL wd \<noteq> 0 \<and> TTL wd \<le> time_Now env) \<or> isKeyIdle env (dm w) hkey"
  shows "callGetOnCluster env hkey name key w = (Inl ErrKeyNotFound, emit EvRUnlock w3)"
proof -
  have ne: "getPartitionOwners env hkey \<noteq> []"
    using assms(2) collectVersions_empty [of env hkey name key "emit EvRLock w"] by auto
  from collectVersions_ok [OF ne, of name key "emit EvRLock w"] assms(2)
  have "dm w3 = dm w" by (auto simp: emit_def)
  with assms(7) have "isKeyExpired (time_Now env) (TTL wd) \<or> isKeyIdle env (dm w3) hkey"
    by (simp add: isKeyExpired_def)
  with assms(3-6) show ?thesis
    by (simp add: callGetOnCluster_after_collect [OF assms(1,2)])
qed

text \<open>
  The local version of the small cluster replaced by one that expired at 500.
\<close>

theorem expired_or_idle_winner_is_not_found_witness:
  "sanitizeAndSortVersions
      [\<lparr>host = ThisRef, Data = Some ex_expired\<rparr>, \<lparr>host = ReplicaRef 0, Data = Some ex_v2\<rparr>,
       \<lparr>host = ReplicaRef 0, Data = None\<rparr>]
     = Inr [\<lparr>host = ThisRef, Data = Some ex_expired\<rparr>, \<lparr>host = ReplicaRef 0, Data = Some ex_v2\<rparr>]
   \<and> TTL ex_expired \<noteq> 0 \<and> TTL ex_expired \<le> time_Now ex_env
   \<and> (\<exists>w3. collectVersions ex_env 7 ''dm'' ''k'' (emit EvRLock (ex_world_with (Some ex_expired)))
              = Inr ([\<lparr>host = ThisRef, Data = Some ex_expired\<rparr>,
                      \<lparr>host = ReplicaRef 0, Data = Some ex_v2\<rparr>,
                      \<lparr>host = ReplicaRef 0, Data = None\<rparr>], w3)
          \<and> callGetOnCluster ex_env 7 ''dm'' ''k'' (ex_world_with (Some ex_expired))
              = (Inl ErrKeyNotFound, emit EvRUnlock w3))"
proof -
  let ?vs = "[\<lparr>host = ThisRef, Data = Some ex_expired\<rparr>, \<lparr>host = ReplicaRef 0, Data = Some ex_v2\<rparr>,
       \<lparr>host = ReplicaRef 0, Data = None\<rparr>]"
  let ?w = "ex_world_with (Some ex_expired)"
  have g: "getDMap ex_env ''dm'' 7 = None" by (simp add: ex_defs2)
  have "\<exists>w3. collectVersions ex_env 7 ''dm'' ''k'' (emit EvRLock ?w) = Inr (?vs, w3)"
    by (simp add: model_defs ex_defs2)
  then obtain w3 where c: "collectVersions ex_env 7 ''dm'' ''k'' (emit EvRLock ?w) = Inr (?vs, w3)"
    by blast
  have q1: "ReadQuorum ex_env \<le> int (length ?vs)" by (simp add: ex_defs2)
  have s: "sanitizeAndSortVersions ?vs
     = Inr (\<lparr>host = ThisRef, Data = Some ex_expired\<rparr> # [\<lparr>host = ReplicaRef 0, Data = Some ex_v2\<rparr>])"
    by (simp add: model_defs ex_defs2)
  have q2: "ReadQuorum ex_env
      \<le> int (length (\<lparr>host = ThisRef, Data = Some ex_expired\<rparr> # [\<lparr>host = ReplicaRef 0, Data = Some ex_v2\<rparr>]))"
    by (simp add: ex_defs2)
  have d: "Data \<lparr>host = ThisRef, Data = Some ex_expired\<rparr> = Some ex_expired" by simp
  have x: "TTL ex_expired \<noteq> 0 \<and> TTL ex_expired \<le> time_Now ex_env" by (simp add: ex_defs2)
  then have x': "(TTL ex_expired \<noteq> 0 \<and> TTL ex_expired \<le> time_Now ex_env) \<or> isKeyIdle ex_env (dm ?w) 7"
    by blast
  from expired_or_idle_winner_is_not_found [OF g c q1 s q2 d x']
  have "callGetOnCluster ex_env 7 ''dm'' ''k'' ?w = (Inl ErrKeyNotFound, emit EvRUnlock w3)" .
  with c s x show ?thesis by blast
qed

subsection \<open>C7\<close>

text \<open>
  Claim C7: a run of \<open>callGetOnCluster\<close> that returns \<open>ErrReadQuorum\<close> or
  \<open>ErrKeyNotFound\<close> leaves the DMap, and the access log with it, as it was. The run adds
  to the trace exactly one call of \<open>updateAccessLog\<close> for the key when it returns a value,
  none when it returns an error, and never a call for another key.
\<close>

theorem access_log_updated_only_on_success:
  assumes "callGetOnCluster env hkey name key w = (res, w')"
  shows "(res = Inl ErrReadQuorum \<or> res = Inl ErrKeyNotFound \<longrightarrow> dm w' = dm w)
       \<and> (\<exists>evs. trace w' = trace w @ evs
             \<and> count_list evs (EvUpdateAccessLog hkey) = (case res of Inl e \<Rightarrow> 0 | Inr v \<Rightarrow> 1)
             \<and> (\<forall>k. k \<noteq> hkey \<longrightarrow> count_list evs (EvUpdateAccessLog k) = 0))"
proof -
  let ?goal = "\<lambda>res w'. (res = Inl ErrReadQuorum \<or> res = Inl ErrKeyNotFound \<longrightarrow> dm w' = dm w)
       \<and> (\<exists>evs. trace w' = trace w @ evs
             \<and> count_list evs (EvUpdateAccessLog hkey) = (case res of Inl e \<Rightarrow> 0 | Inr v \<Rightarrow> 1)
             \<and> (\<forall>k. k \<noteq> hkey \<longrightarrow> count_list evs (EvUpdateAccessLog k) = 0))"
  have err: "?goal (Inl e) w0" if "dm w0 = dm w" "trace w0 = trace w @ evs" "no_update evs" for e w0 evs
    using that by (auto simp: no_update_count)
  show ?thesis
  proof (cases "getDMap env name hkey")
    case (Some e)
    with assms have "res = Inl e" "w' = w" by (simp_all add: callGetOnCluster_getDMap_error)
    moreover have "?goal (Inl e) w" by (rule err [of w "[]"]) simp_all
    ultimately show ?thesis by simp
  next
    case None
    let ?w1 = "emit EvRLock w"
    show ?thesis
    proof (cases "collectVersions env hkey name key ?w1")
      case (Inl p)
      with assms None have "res = Inl p" "w' = ?w1" by (simp_all add: callGetOnCluster_panic)
      moreover have "?goal (Inl p) ?w1" by (rule err [of ?w1 "[EvRLock]"]) (simp_all add: emit_def)
      ultimately show ?thesis by simp
    next
      case (Inr pr)
      obtain versions w3 where pr: "pr = (versions, w3)" by (cases pr)
      with Inr have cv: "collectVersions env hkey name key ?w1 = Inr (versions, w3)" by simp
      from collectVersions_frame [OF cv] obtain evs3 where
        f: "dm w3 = dm w" "trace w3 = trace w @ EvRLock # evs3" "no_update evs3"
        by (auto simp: emit_def)
      have f3: "?goal (Inl e) w3" for e
        by (rule err [of w3 "EvRLock # evs3"]) (simp_all add: f)
      have fu: "?goal (Inl e) (emit EvRUnlock w3)" for e
        by (rule err [of _ "EvRLock # evs3 @ [EvRUnlock]"]) (simp_all add: f emit_def)
      note cg = callGetOnCluster_after_collect [OF None cv]
      obtain zs where zs: "sanitizeAndSortVersions versions = Inr zs"
        using sanitize_sorted [of versions] by blast
      show ?thesis
      proof (cases "int (length versions) < ReadQuorum env")
        case True
        with assms cg have "res = Inl ErrReadQuorum" "w' = emit EvRUnlock w3" by simp_all
        with fu show ?thesis by simp
      next
        case q1: False
        show ?thesis
        proof (cases zs)
          case Nil
          with assms cg q1 zs have "res = Inl ErrKeyNotFound" "w' = emit EvRUnlock w3" by simp_all
          with fu show ?thesis by simp
        next
          case (Cons winner others)
          show ?thesis
          proof (cases "int (length (winner # others)) < ReadQuorum env")
            case True
            with assms cg q1 zs Cons have "res = Inl ErrReadQuorum" "w' = emit EvRUnlock w3"
              by simp_all
            with fu show ?thesis by simp
          next
            case q2: False
            from sanitize_data [OF zs, of winner] Cons obtain wd where wd: "Data winner = Some wd"
              by auto
            show ?thesis
            proof (cases "isKeyExpired (time_Now env) (TTL wd) \<or> isKeyIdle env (dm w3) hkey")
              case True
              with assms cg q1 q2 zs Cons wd have "res = Inl ErrKeyNotFound" "w' = emit EvRUnlock w3"
                by simp_all
              with fu show ?thesis by simp
            next
              case live: False
              let ?w5 = "emit EvRUnlock (emit (EvUpdateAccessLog hkey)
                                (w3\<lparr>dm := updateAccessLog env hkey (dm w3)\<rparr>))"
              have t5: "trace ?w5 = trace w @ EvRLock # evs3 @ [EvUpdateAccessLog hkey, EvRUnlock]"
                by (simp add: emit_def f)
              have hv: "hosts_valid env ?w5 versions"
                using collectVersions_hosts [OF cv] hosts_valid_heap [of ?w5 w3 env versions]
                by (simp add: emit_def)
              from readRepair_events [OF wd hv, of name] obtain w6 where
                r: "readRepair env name winner versions ?w5 = Inr w6"
                   "trace w6 = trace ?w5 @ concat (map (repair_events env name wd ?w5) versions)"
                by blast
              let ?rep = "concat (map (repair_events env name wd ?w5) versions)"
              have nr: "no_update ?rep" by (rule no_update_concat_repair)
              have res: "res = Inr (Value wd)" and w': "w' = (if ReadRepair env then w6 else ?w5)"
                using assms cg q1 q2 zs Cons wd live r(1) by (auto simp: Let_def split: if_splits)
              let ?evs = "EvRLock # evs3 @ [EvUpdateAccessLog hkey, EvRUnlock]
                            @ (if ReadRepair env then ?rep else [])"
              have "trace w' = trace w @ ?evs" using w' r(2) t5 by simp
              moreover have "count_list ?evs (EvUpdateAccessLog hkey) = 1"
                using nr f(3) by (simp add: no_update_count)
              moreover have "count_list ?evs (EvUpdateAccessLog k) = 0" if "k \<noteq> hkey" for k
                using nr f(3) that by (simp add: no_update_count)
              ultimately show ?thesis using res by auto
            qed
          qed
        qed
      qed
    qed
  qed
qed

text \<open>
  A successful read and the read of an expired winner on the small cluster.
\<close>

theorem access_log_updated_only_on_success_witness:
  "fst (callGetOnCluster ex_env 7 ''dm'' ''k'' ex_world) = Inr [2]
   \<and> (\<exists>evs. trace (snd (callGetOnCluster ex_env 7 ''dm'' ''k'' ex_world)) = trace ex_world @ evs
          \<and> count_list evs (EvUpdateAccessLog 7) = 1)
   \<and> fst (callGetOnCluster ex_env 7 ''dm'' ''k'' (ex_world_with (Some ex_expired))) = Inl ErrKeyNotFound
   \<and> dm (snd (callGetOnCluster ex_env 7 ''dm'' ''k'' (ex_world_with (Some ex_expired))))
       = dm (ex_world_with (Some ex_expired))
   \<and> (\<exists>evs. trace (snd (callGetOnCluster ex_env 7 ''dm'' ''k'' (ex_world_with (Some ex_expired))))
              = trace (ex_world_with (Some ex_expired)) @ evs
          \<and> count_list evs (EvUpdateAccessLog 7) = 0)"
proof -
  let ?ok = "callGetOnCluster ex_env 7 ''dm'' ''k'' ex_world"
  let ?w = "ex_world_with (Some ex_expired)"
  let ?ex = "callGetOnCluster ex_env 7 ''dm'' ''k'' ?w"
  have r1: "fst ?ok = Inr [2]" by (simp add: model_defs ex_defs2)
  have r2: "fst ?ex = Inl ErrKeyNotFound" by (simp add: model_defs ex_defs2)
  have p1: "?ok = (fst ?ok, snd ?ok)" and p2: "?ex = (fst ?ex, snd ?ex)" by simp_all
  from access_log_updated_only_on_success [OF p1] r1
  have a: "\<exists>evs. trace (snd ?ok) = trace ex_world @ evs \<and> count_list evs (EvUpdateAccessLog 7) = 1"
    by auto
  from access_log_updated_only_on_success [OF p2] r2
  have b: "dm (snd ?ex) = dm ?w"
    and c: "\<exists>evs. trace (snd ?ex) = trace ?w @ evs \<and> count_list evs (EvUpdateAccessLog 7) = 0"
    by auto
  from r1 r2 a b c show ?thesis by blast
qed

subsection \<open>C8\<close>

text \<open>
  Claim C8 as stated, with the number of configured replicas as what is compared with
  \<open>MinimumReplicaCount\<close>, fails: two configurations with the same two backups and the
  same threshold of 2, one with a read quorum of 1 and one with a read quorum of 2. The first
  run sends no \<open>GET-BACKUP\<close> request, the second does.
\<close>

theorem replicas_consulted_by_replica_count_counterexample:
  "getBackupPartitionOwners (ex_env\<lparr>MinimumReplicaCount := 2, ReadQuorum := 1\<rparr>) 7 = [''n1'', ''n2'']
   \<and> getBackupPartitionOwners (ex_env\<lparr>MinimumReplicaCount := 2, ReadQuorum := 2\<rparr>) 7 = [''n1'', ''n2'']
   \<and> MinimumReplicaCount (ex_env\<lparr>MinimumReplicaCount := 2, ReadQuorum := 1\<rparr>) = 2
   \<and> MinimumReplicaCount (ex_env\<lparr>MinimumReplicaCount := 2, ReadQuorum := 2\<rparr>) = 2
   \<and> \<not> replicas_consulted (ex_env\<lparr>MinimumReplicaCount := 2, ReadQuorum := 1\<rparr>) 7 ''dm'' ''k'' ex_world
   \<and> replicas_consulted (ex_env\<lparr>MinimumReplicaCount := 2, ReadQuorum := 2\<rparr>) 7 ''dm'' ''k'' ex_world"
  by (simp add: replicas_consulted_def is_getBackup_def model_defs ex_defs2)

text \<open>
  Claim C8, as amended: a run of \<open>callGetOnCluster\<close> that reaches the lookups sends
  \<open>GET-BACKUP\<close> requests exactly when \<open>ReadQuorum\<close> is at least
  \<open>MinimumReplicaCount\<close> and there is a backup; the collected version set is the versions
  of \<open>lookupOnOwners\<close> followed by those of \<open>lookupOnReplicas\<close>, one per backup, when
  \<open>ReadQuorum\<close> is at least \<open>MinimumReplicaCount\<close>, and the versions of
  \<open>lookupOnOwners\<close> alone when it is not.
\<close>

theorem replicas_consulted_iff_ReadQuorum_reaches_threshold:
  assumes "getDMap env name hkey = None" and "getPartitionOwners env hkey \<noteq> []"
  shows "(replicas_consulted env hkey name key w
           \<longleftrightarrow> MinimumReplicaCount env \<le> ReadQuorum env \<and> getBackupPartitionOwners env hkey \<noteq> [])
       \<and> (\<exists>vo wo versions w3.
             lookupOnOwners env hkey name key (emit EvRLock w) = Inr (vo, wo)
           \<and> collectVersions env hkey name key (emit EvRLock w) = Inr (versions, w3)
           \<and> versions = vo @ (if MinimumReplicaCount env \<le> ReadQuorum env
                              then fst (lookupOnReplicas env hkey name key wo) else [])
           \<and> length versions = length vo
               + (if MinimumReplicaCount env \<le> ReadQuorum env
                  then length (getBackupPartitionOwners env hkey) else 0))"
proof -
  from callGetOnCluster_getBackups [OF assms, of key w] obtain evs where
    e: "trace (snd (callGetOnCluster env hkey name key w)) = trace w @ evs"
       "filter is_getBackup evs =
             (if MinimumReplicaCount env \<le> ReadQuorum env
              then map (getBackup_request env name key) (getBackupPartitionOwners env hkey)
              else [])" by blast
  have "replicas_consulted env hkey name key w = (filter is_getBackup evs \<noteq> [])"
    by (simp add: replicas_consulted_def e(1) list_ex_iff filter_empty_conv)
  with e(2) have a: "replicas_consulted env hkey name key w
           \<longleftrightarrow> MinimumReplicaCount env \<le> ReadQuorum env \<and> getBackupPartitionOwners env hkey \<noteq> []"
    by simp
  from lookupOnOwners_local_only [OF assms(2), of name key "emit EvRLock w"] obtain wo where
    o: "lookupOnOwners env hkey name key (emit EvRLock w)
          = Inr ([\<lparr>host = ThisRef, Data = storage (dm (emit EvRLock w)) hkey\<rparr>], wo)" by blast
  obtain v w' where r: "lookupOnReplicas env hkey name key wo = (v, w')"
    by (cases "lookupOnReplicas env hkey name key wo")
  have lv: "length v = length (getBackupPartitionOwners env hkey)"
    using lookupOnReplicas_length [of env hkey name key wo] r by simp
  have b: "\<exists>vo wo versions w3.
             lookupOnOwners env hkey name key (emit EvRLock w) = Inr (vo, wo)
           \<and> collectVersions env hkey name key (emit EvRLock w) = Inr (versions, w3)
           \<and> versions = vo @ (if MinimumReplicaCount env \<le> ReadQuorum env
                              then fst (lookupOnReplicas env hkey name key wo) else [])
           \<and> length versions = length vo
               + (if MinimumReplicaCount env \<le> ReadQuorum env
                  then length (getBackupPartitionOwners env hkey) else 0)"
    using o r lv by (simp add: collectVersions_def)
  from a b show ?thesis by blast
qed

text \<open>
  The small cluster, with its quorum of 2 and threshold of 1, and the same with a threshold
  of 3.
\<close>

theorem replicas_consulted_iff_ReadQuorum_reaches_threshold_witness:
  "getDMap ex_env ''dm'' 7 = None
   \<and> getPartitionOwners ex_env 7 = [''p9'', ''n0'']
   \<and> MinimumReplicaCount ex_env \<le> ReadQuorum ex_env
   \<and> replicas_consulted ex_env 7 ''dm'' ''k'' ex_world
   \<and> \<not> MinimumReplicaCount (ex_env\<lparr>MinimumReplicaCount := 3\<rparr>) \<le> ReadQuorum (ex_env\<lparr>MinimumReplicaCount := 3\<rparr>)
   \<and> \<not> replicas_consulted (ex_env\<lparr>MinimumReplicaCount := 3\<rparr>) 7 ''dm'' ''k'' ex_world
   \<and> (\<exists>w3. collectVersions ex_env 7 ''dm'' ''k'' (emit EvRLock ex_world) = Inr (ex_versions, w3))"
proof -
  let ?Z = "ex_env\<lparr>MinimumReplicaCount := 3\<rparr>"
  have g: "getDMap ex_env ''dm'' 7 = None" and gz: "getDMap ?Z ''dm'' 7 = None"
    by (simp_all add: ex_defs2)
  have o: "getPartitionOwners ex_env 7 = [''p9'', ''n0'']"
    and oz: "getPartitionOwners ?Z 7 = [''p9'', ''n0'']"
    by (simp_all add: ex_defs2)
  have ne: "getPartitionOwners ex_env 7 \<noteq> []" and nez: "getPartitionOwners ?Z 7 \<noteq> []"
    by (simp_all add: o oz)
  have t: "MinimumReplicaCount ex_env \<le> ReadQuorum ex_env"
    and b: "getBackupPartitionOwners ex_env 7 \<noteq> []"
    and tz: "\<not> MinimumReplicaCount ?Z \<le> ReadQuorum ?Z"
    by (simp_all add: ex_defs2)
  from replicas_consulted_iff_ReadQuorum_reaches_threshold [OF g ne, of "''k''" ex_world] t b
  have c: "replicas_consulted ex_env 7 ''dm'' ''k'' ex_world" by blast
  from replicas_consulted_iff_ReadQuorum_reaches_threshold [OF gz nez, of "''k''" ex_world] tz
  have cz: "\<not> replicas_consulted ?Z 7 ''dm'' ''k'' ex_world" by blast
  have e: "\<exists>w3. collectVersions ex_env 7 ''dm'' ''k'' (emit EvRLock ex_world) = Inr (ex_versions, w3)"
    by (simp add: model_defs ex_defs2)
  from g o t c tz cz e show ?thesis by blast
qed

subsection \<open>C9\<close>




subsection \<open>C10\<close>

text \<open>
  Claim C10: when \<open>get\<close> yields raw bytes that the serializer of the user boundary
  turns into the empty struct, \<open>DMap.Get\<close> returns a nil value together with a nil error.
\<close>

theorem Get_empty_struct_is_nil:
  assumes "get env name key w = (Inr rawval, w')"
    and "serializer_Unmarshal env rawval = Inr GoEmptyStruct"
  shows "DMap_Get env name key w = (Inr GoNil, w')"
  using assms by (simp add: DMap_Get_def unmarshalValue_def)

text \<open>
  A stored value of no bytes, which the serializer of the small cluster reads as the empty
  struct.
\<close>

theorem Get_empty_struct_is_nil_witness:
  "serializer_Unmarshal (ex_env\<lparr>ReadQuorum := 1, ReadRepair := False\<rparr>) [] = Inr GoEmptyStruct
   \<and> fst (get (ex_env\<lparr>ReadQuorum := 1, ReadRepair := False\<rparr>) ''dm'' ''k''
            (ex_world_with (Some ex_blank))) = Inr []
   \<and> fst (DMap_Get (ex_env\<lparr>ReadQuorum := 1, ReadRepair := False\<rparr>) ''dm'' ''k''
            (ex_world_with (Some ex_blank))) = Inr GoNil"
proof -
  let ?E = "ex_env\<lparr>ReadQuorum := 1, ReadRepair := False\<rparr>"
  let ?w = "ex_world_with (Some ex_blank)"
  have s: "serializer_Unmarshal ?E [] = Inr GoEmptyStruct" by (simp add: ex_defs2)
  have g: "fst (get ?E ''dm'' ''k'' ?w) = Inr []" by (simp add: model_defs ex_defs2)
  then have p: "get ?E ''dm'' ''k'' ?w = (Inr [], snd (get ?E ''dm'' ''k'' ?w))"
    by (metis prod.collapse)
  from Get_empty_struct_is_nil [OF p s] have "fst (DMap_Get ?E ''dm'' ''k'' ?w) = Inr GoNil" by simp
  with s g show ?thesis by blast
qed

end
